theory Spec2Isabelle
  imports Main
begin

section \<open>Strings and values\<close>

text \<open>
  Strings are lists of 8-bit code units, the Latin-1 range of JavaScript's
  code units. The helpers below model \<^verbatim>\<open>String.prototype.includes\<close>,
  \<^verbatim>\<open>String.prototype.toLowerCase\<close> and the decimal rendering of an integer
  inside a template literal. The capital letters of the range are
  \<^verbatim>\<open>A\<close> to \<^verbatim>\<open>Z\<close> and the code units \<^verbatim>\<open>0xC0\<close> to \<^verbatim>\<open>0xDE\<close> without the
  multiplication sign \<^verbatim>\<open>0xD7\<close>; each has its small letter 32 code units up.
\<close>

fun starts_with :: "string \<Rightarrow> string \<Rightarrow> bool" where
  "starts_with _ [] = True"
| "starts_with [] (_ # _) = False"
| "starts_with (c # cs) (d # ds) = (c = d \<and> starts_with cs ds)"

fun str_includes :: "string \<Rightarrow> string \<Rightarrow> bool" where
  "str_includes [] needle = (needle = [])"
| "str_includes (c # cs) needle = (starts_with (c # cs) needle \<or> str_includes cs needle)"

definition lower_char :: "char \<Rightarrow> char" where
  "lower_char c =
     (let n = (of_char c :: nat) in
      if (65 \<le> n \<and> n \<le> 90) \<or> (192 \<le> n \<and> n \<le> 222 \<and> n \<noteq> 215)
      then char_of (n + 32) else c)"

definition toLowerCase :: "string \<Rightarrow> string" where
  "toLowerCase s = map lower_char s"

definition digit_char :: "nat \<Rightarrow> char" where
  "digit_char d = ''0123456789'' ! d"

fun show_nat :: "nat \<Rightarrow> string" where
  "show_nat n = (if n < 10 then [digit_char n] else show_nat (n div 10) @ [digit_char (n mod 10)])"

declare show_nat.simps [simp del]

definition show_int :: "int \<Rightarrow> string" where
  "show_int i = (if i < 0 then CHR ''-'' # show_nat (nat (- i)) else show_nat (nat i))"

text \<open>
  Tool inputs and results have the TypeScript type \<^verbatim>\<open>unknown\<close>; they are JSON
  data. An object is the list of its entries in \<^verbatim>\<open>Object.entries\<close> order.
\<close>

datatype jvalue =
    JNull
  | JBool bool
  | JNum int
  | JStr string
  | JArr "jvalue list"
  | JObj "(string \<times> jvalue) list"

text \<open>
  Both redactors copy an object with \<^verbatim>\<open>result[key] = v\<close> into \<^verbatim>\<open>result = {}\<close>, one
  entry after the other. For every key but one this defines the own property
  \<^verbatim>\<open>key\<close>. The key \<^verbatim>\<open>__proto__\<close> names the accessor that \<^verbatim>\<open>result\<close> inherits from
  \<^verbatim>\<open>Object.prototype\<close>: the assignment calls its setter, which makes \<^verbatim>\<open>v\<close> the
  prototype of \<^verbatim>\<open>result\<close> when \<^verbatim>\<open>v\<close> is an object or \<^verbatim>\<open>null\<close> and does nothing
  otherwise; in neither case is there an own property afterwards. What
  \<^verbatim>\<open>result\<close> inherits is not among its entries.
\<close>

definition assigned :: "(string \<times> jvalue) list \<Rightarrow> (string \<times> jvalue) list" where
  "assigned entries = filter (\<lambda>kv. fst kv \<noteq> ''__proto__'') entries"

text \<open>A thrown \<^verbatim>\<open>Error\<close>, identified by its message as the source does.\<close>

datatype js_error = JsError string

fun message :: "js_error \<Rightarrow> string" where
  "message (JsError m) = m"

section \<open>types.ts\<close>

datatype Risk = Read | Write | Admin

fun risk_name :: "Risk \<Rightarrow> string" where
  "risk_name Read = ''read''"
| "risk_name Write = ''write''"
| "risk_name Admin = ''admin''"

text \<open>
  \<^verbatim>\<open>GuardDecision\<close> is the union
  \<^verbatim>\<open>{allow: true} | {allow: false; reason} | {allow: true; needsApproval: true; reason}\<close>.
\<close>

datatype GuardDecision =
    Allow
  | Deny string
  | AllowNeedsApproval string

fun decision_allow :: "GuardDecision \<Rightarrow> bool" where
  "decision_allow Allow = True"
| "decision_allow (Deny _) = False"
| "decision_allow (AllowNeedsApproval _) = True"


fun decision_reason :: "GuardDecision \<Rightarrow> string option" where
  "decision_reason Allow = None"
| "decision_reason (Deny r) = Some r"
| "decision_reason (AllowNeedsApproval r) = Some r"

record GuardContext =
  requestId :: string
  toolCalls :: int
  maxToolCalls :: int
  startTime :: int
  maxDurationMs :: "int option"

record decide_args =
  arg_toolName :: string
  arg_input :: jvalue
  arg_ctx :: GuardContext
  arg_risk :: Risk
  arg_reason :: "string option"

text \<open>Both policy operations may throw (or return a rejected promise).\<close>

record GuardPolicy =
  classify :: "string \<Rightarrow> jvalue \<Rightarrow> js_error + (Risk \<times> string option)"
  decide :: "decide_args \<Rightarrow> js_error + GuardDecision"

section \<open>policy.ts: createSimplePolicy\<close>

record SimplePolicyOptions =
  allowlist :: "string list option"
  denylist :: "string list option"
  requireApprovalForRisk :: "Risk list option"

definition simple_classify :: "string \<Rightarrow> Risk \<times> string option" where
  "simple_classify name =
     (let lowered = toLowerCase name in
      if str_includes lowered ''delete'' \<or> str_includes lowered ''remove'' \<or>
         str_includes lowered ''destroy'' \<or> str_includes lowered ''drop''
      then (Admin, Some ''destructive operation'')
      else if str_includes lowered ''create'' \<or> str_includes lowered ''write'' \<or>
              str_includes lowered ''update'' \<or> str_includes lowered ''modify'' \<or>
              str_includes lowered ''insert'' \<or> str_includes lowered ''send'' \<or>
              str_includes lowered ''post''
      then (Write, Some ''write operation'')
      else (Read, Some ''read-only operation''))"

text \<open>
  An array is truthy in JavaScript even when it is empty, so the tests
  \<^verbatim>\<open>denylist && ...\<close> and \<^verbatim>\<open>allowlist && ...\<close> only ask whether the option was given.
\<close>

definition approval_risks :: "SimplePolicyOptions \<Rightarrow> Risk list" where
  "approval_risks options =
     (case requireApprovalForRisk options of None \<Rightarrow> [Write, Admin] | Some rs \<Rightarrow> rs)"

definition simple_decide :: "SimplePolicyOptions \<Rightarrow> string \<Rightarrow> Risk \<Rightarrow> GuardDecision" where
  "simple_decide options name r =
     (if (case denylist options of None \<Rightarrow> False | Some dl \<Rightarrow> name \<in> set dl)
      then Deny (''Tool '' @ [CHR 0x27] @ name @ [CHR 0x27] @ '' is in denylist'')
      else if (case allowlist options of None \<Rightarrow> False | Some al \<Rightarrow> name \<notin> set al)
      then Deny (''Tool '' @ [CHR 0x27] @ name @ [CHR 0x27] @ '' is not in allowlist'')
      else if r \<in> set (approval_risks options)
      then AllowNeedsApproval (risk_name r @ '' operation requires approval'')
      else Allow)"

definition createSimplePolicy :: "SimplePolicyOptions \<Rightarrow> GuardPolicy" where
  "createSimplePolicy options =
     \<lparr> classify = (\<lambda>name _. Inr (simple_classify name)),
       decide = (\<lambda>a. Inr (simple_decide options (arg_toolName a) (arg_risk a))) \<rparr>"

fun is_deny :: "js_error + GuardDecision \<Rightarrow> bool" where
  "is_deny (Inr (Deny _)) = True"
| "is_deny _ = False"

section \<open>Audit events and sinks\<close>

text \<open>
  The fields of the six event shapes, in the order of their declaration in
  \<^verbatim>\<open>AuditEvent\<close>; the last two of each are \<^verbatim>\<open>requestId\<close> and \<^verbatim>\<open>timestamp\<close>.
\<close>

datatype AuditEvent =
    ToolCallAttempted string jvalue string int
  | ToolCallBlocked string string string int
  | ToolCallNeedsApproval string string string int
  | ToolCallExecuted string int string int
  | ToolCallTimeout string int string int
  | BudgetExceeded string string int

fun event_type :: "AuditEvent \<Rightarrow> string" where
  "event_type (ToolCallAttempted _ _ _ _) = ''tool_call_attempted''"
| "event_type (ToolCallBlocked _ _ _ _) = ''tool_call_blocked''"
| "event_type (ToolCallNeedsApproval _ _ _ _) = ''tool_call_needs_approval''"
| "event_type (ToolCallExecuted _ _ _ _) = ''tool_call_executed''"
| "event_type (ToolCallTimeout _ _ _ _) = ''tool_call_timeout''"
| "event_type (BudgetExceeded _ _ _) = ''budget_exceeded''"

text \<open>
  \<^verbatim>\<open>emit: (event) => void | Promise<void>\<close>. A call of \<^verbatim>\<open>emit\<close> returns, throws, or
  returns a promise that rejects later. A sink may keep state, so its answer
  may depend on the events it was handed before.
\<close>

datatype emit_result = EmitReturns | EmitThrows js_error | EmitRejects js_error

type_synonym AuditSink = "AuditEvent list \<Rightarrow> AuditEvent \<Rightarrow> emit_result"

fun emit_throws :: "emit_result \<Rightarrow> bool" where
  "emit_throws (EmitThrows _) = True"
| "emit_throws _ = False"


section \<open>utils.ts\<close>

definition createDefaultContext :: "string \<Rightarrow> int \<Rightarrow> GuardContext" where
  "createDefaultContext rid now =
     \<lparr> requestId = rid, toolCalls = 0, maxToolCalls = 8, startTime = now,
       maxDurationMs = Some 60000 \<rparr>"

text \<open>
  A call of a tool's \<^verbatim>\<open>execute\<close> keeps the thread for some milliseconds and
  then either throws or returns a promise; the promise settles some
  milliseconds after it was returned, or never.
\<close>

datatype settlement = Resolved jvalue | Rejected js_error

datatype promise = Settles nat settlement | Pending

datatype execution = Returns nat promise | Throws nat js_error

definition timeout_error :: "int \<Rightarrow> js_error" where
  "timeout_error ms = JsError (''Operation timed out after '' @ show_int ms @ ''ms'')"

text \<open>
  \<^verbatim>\<open>setTimeout(f, ms)\<close> as Node runs it: a delay below 1 or above \<^verbatim>\<open>2^31 - 1\<close> is
  replaced by 1 millisecond.
\<close>

definition timer_delay :: "int \<Rightarrow> int" where
  "timer_delay ms = (if 1 \<le> ms \<and> ms \<le> 2147483647 then ms else 1)"

text \<open>
  \<^verbatim>\<open>withTimeout(promise, ms)\<close> sets its timer when it is called, which is after
  the promise was made, and lets the two race: it yields the time that passed
  since the call and how the race settled. The promise wins when it settles
  no later than the timer fires.
\<close>

definition withTimeout :: "promise \<Rightarrow> int \<Rightarrow> int \<times> settlement" where
  "withTimeout p ms =
     (case p of
        Settles d r \<Rightarrow>
          if int d \<le> timer_delay ms then (int d, r)
          else (timer_delay ms, Rejected (timeout_error ms))
      | Pending \<Rightarrow> (timer_delay ms, Rejected (timeout_error ms)))"

section \<open>guard-tools.ts\<close>



text \<open>\<^verbatim>\<open>redact: (value) => unknown\<close> is code of the host: it returns a value or throws.\<close>

record GuardToolsOptions =
  policy :: GuardPolicy
  opt_ctx :: "GuardContext option"
  audit :: "AuditSink option"
  timeoutMs :: "int option"
  redactor :: "(jvalue \<Rightarrow> js_error + jvalue) option"

text \<open>
  The request's context is shared and mutated by every wrapped tool; the
  model passes it along, together with the events handed to the sink so far
  and the rejections of the promises that \<^verbatim>\<open>emit\<close> returned. Nothing awaits or
  handles such a promise, so a rejection stays unhandled: the host decides
  what follows, and Node by default ends the process. What the theorems say
  about the outcome of an invocation is what the wrapped \<^verbatim>\<open>execute\<close> does while
  the host keeps running.
\<close>

record guard_state =
  ctx :: GuardContext
  trace :: "AuditEvent list"
  unhandled :: "js_error list"

type_synonym 'a guarded = "guard_state \<Rightarrow> (js_error + 'a) \<times> guard_state"

definition greturn :: "'a \<Rightarrow> 'a guarded" where
  "greturn a s = (Inr a, s)"

definition gthrow :: "js_error \<Rightarrow> 'a guarded" where
  "gthrow e s = (Inl e, s)"

definition gbind :: "'a guarded \<Rightarrow> ('a \<Rightarrow> 'b guarded) \<Rightarrow> 'b guarded" where
  "gbind m f s = (case m s of (Inl e, s') \<Rightarrow> (Inl e, s') | (Inr a, s') \<Rightarrow> f a s')"

definition gcatch :: "'a guarded \<Rightarrow> (js_error \<Rightarrow> 'a guarded) \<Rightarrow> 'a guarded" where
  "gcatch m h s = (case m s of (Inl e, s') \<Rightarrow> h e s' | (Inr a, s') \<Rightarrow> (Inr a, s'))"

text \<open>
  \<^verbatim>\<open>audit?.emit(event)\<close>: nothing happens without a sink; with one, the event is
  handed over. A synchronous throw of \<^verbatim>\<open>emit\<close> is thrown on, since no call is
  inside a \<^verbatim>\<open>try\<close> of its own. The promise an asynchronous \<^verbatim>\<open>emit\<close> returns is
  dropped, and its rejection joins the unhandled ones.
\<close>

definition emit :: "AuditSink option \<Rightarrow> (guard_state \<Rightarrow> AuditEvent) \<Rightarrow> unit guarded" where
  "emit sink mk s =
     (case sink of
        None \<Rightarrow> (Inr (), s)
      | Some f \<Rightarrow>
          (let e = mk s; s' = s\<lparr>trace := trace s @ [e]\<rparr> in
           case f (trace s) e of
             EmitReturns \<Rightarrow> (Inr (), s')
           | EmitThrows err \<Rightarrow> (Inl err, s')
           | EmitRejects err \<Rightarrow> (Inr (), s'\<lparr>unhandled := unhandled s' @ [err]\<rparr>)))"

text \<open>\<^verbatim>\<open>redactor ? redactor.redact(value) : value\<close>.\<close>

definition redacted :: "GuardToolsOptions \<Rightarrow> jvalue \<Rightarrow> js_error + jvalue" where
  "redacted opts v = (case redactor opts of None \<Rightarrow> Inr v | Some r \<Rightarrow> r v)"

definition redact :: "GuardToolsOptions \<Rightarrow> jvalue \<Rightarrow> jvalue guarded" where
  "redact opts v s = (case redacted opts v of Inl e \<Rightarrow> (Inl e, s) | Inr w \<Rightarrow> (Inr w, s))"

definition timeout_of :: "GuardToolsOptions \<Rightarrow> int" where
  "timeout_of opts = (case timeoutMs opts of None \<Rightarrow> 15000 | Some ms \<Rightarrow> ms)"

definition emit_attempted :: "GuardToolsOptions \<Rightarrow> string \<Rightarrow> int \<Rightarrow> jvalue \<Rightarrow> unit guarded" where
  "emit_attempted opts name now input =
     gbind (redact opts input) (\<lambda>redactedInput.
       emit (audit opts) (\<lambda>s. ToolCallAttempted name redactedInput (requestId (ctx s)) now))"

definition tool_budget_reason :: "GuardContext \<Rightarrow> string" where
  "tool_budget_reason c = ''Tool budget exceeded (maxToolCalls='' @ show_int (maxToolCalls c) @ '')''"

definition time_budget_reason :: "int \<Rightarrow> string" where
  "time_budget_reason d = ''Time budget exceeded (maxDurationMs='' @ show_int d @ '')''"

definition increment_toolCalls :: "unit guarded" where
  "increment_toolCalls s = (Inr (), s\<lparr>ctx := (ctx s)\<lparr>toolCalls := toolCalls (ctx s) + 1\<rparr>\<rparr>)"

definition check_tool_budget :: "GuardToolsOptions \<Rightarrow> int \<Rightarrow> unit guarded" where
  "check_tool_budget opts now =
     gbind increment_toolCalls (\<lambda>_ s.
       if toolCalls (ctx s) > maxToolCalls (ctx s)
       then gbind (emit (audit opts) (\<lambda>s. BudgetExceeded (tool_budget_reason (ctx s)) (requestId (ctx s)) now))
              (\<lambda>_. gthrow (JsError (tool_budget_reason (ctx s)))) s
       else greturn () s)"

text \<open>\<^verbatim>\<open>if (ctx.maxDurationMs)\<close> skips the check for a missing limit and for the limit 0.\<close>

definition time_budget_exceeded :: "GuardContext \<Rightarrow> int \<Rightarrow> bool" where
  "time_budget_exceeded c now =
     (case maxDurationMs c of
        None \<Rightarrow> False
      | Some d \<Rightarrow> d \<noteq> 0 \<and> now - startTime c > d)"

definition check_time_budget :: "GuardToolsOptions \<Rightarrow> int \<Rightarrow> unit guarded" where
  "check_time_budget opts now s =
     (case maxDurationMs (ctx s) of
        None \<Rightarrow> greturn () s
      | Some d \<Rightarrow>
          if d \<noteq> 0 \<and> now - startTime (ctx s) > d
          then gbind (emit (audit opts) (\<lambda>s. BudgetExceeded (time_budget_reason d) (requestId (ctx s)) now))
                 (\<lambda>_. gthrow (JsError (time_budget_reason d))) s
          else greturn () s)"

definition classify_and_decide :: "GuardPolicy \<Rightarrow> string \<Rightarrow> jvalue \<Rightarrow> GuardContext \<Rightarrow> js_error + GuardDecision" where
  "classify_and_decide p name input c =
     (case classify p name input of
        Inl e \<Rightarrow> Inl e
      | Inr (r, why) \<Rightarrow>
          decide p \<lparr> arg_toolName = name, arg_input = input, arg_ctx = c, arg_risk = r, arg_reason = why \<rparr>)"

definition consult_policy :: "GuardToolsOptions \<Rightarrow> string \<Rightarrow> jvalue \<Rightarrow> GuardDecision guarded" where
  "consult_policy opts name input s =
     (case classify_and_decide (policy opts) name input (ctx s) of
        Inl e \<Rightarrow> gthrow e s
      | Inr d \<Rightarrow> greturn d s)"

definition enforce_decision :: "GuardToolsOptions \<Rightarrow> string \<Rightarrow> int \<Rightarrow> GuardDecision \<Rightarrow> unit guarded" where
  "enforce_decision opts name now d =
     (case d of
        Deny why \<Rightarrow>
          gbind (emit (audit opts) (\<lambda>s. ToolCallBlocked name why (requestId (ctx s)) now))
            (\<lambda>_. gthrow (JsError (''Tool call blocked: '' @ why)))
      | AllowNeedsApproval why \<Rightarrow>
          emit (audit opts) (\<lambda>s. ToolCallNeedsApproval name why (requestId (ctx s)) now)
      | Allow \<Rightarrow> greturn ())"

text \<open>
  After the race the \<^verbatim>\<open>try\<close> block computes the redacted result (which is not
  used), emits \<^verbatim>\<open>tool_call_executed\<close> and returns the original result; \<open>t0\<close> and
  \<open>t1\<close> are the readings of the clock before the call of the tool and after
  the race.
\<close>

definition try_execute :: "GuardToolsOptions \<Rightarrow> string \<Rightarrow> int \<Rightarrow> int \<Rightarrow> settlement \<Rightarrow> jvalue guarded" where
  "try_execute opts name t0 t1 settled =
     (case settled of
        Resolved result \<Rightarrow>
          gbind (redact opts result) (\<lambda>redactedResult.
          gbind (emit (audit opts) (\<lambda>s. ToolCallExecuted name (t1 - t0) (requestId (ctx s)) t1))
            (\<lambda>_. greturn result))
      | Rejected e \<Rightarrow> gthrow e)"

definition catch_execute :: "GuardToolsOptions \<Rightarrow> string \<Rightarrow> int \<Rightarrow> js_error \<Rightarrow> jvalue guarded" where
  "catch_execute opts name t1 e =
     (if str_includes (message e) ''timed out''
      then gbind (emit (audit opts) (\<lambda>s. ToolCallTimeout name (timeout_of opts) (requestId (ctx s)) t1))
             (\<lambda>_. gthrow e)
      else gthrow e)"

text \<open>
  \<^verbatim>\<open>await withTimeout(originalExecute(input), timeoutMs)\<close> inside \<^verbatim>\<open>try\<close>: the tool
  is called first, so the timer starts when the tool hands back its promise.
  The \<^verbatim>\<open>catch\<close> block sees every error of the \<^verbatim>\<open>try\<close> block: a throw of the tool,
  the rejection that won the race, a throw of the redactor and a throw of the sink.
\<close>

definition execute_with_timeout ::
  "GuardToolsOptions \<Rightarrow> string \<Rightarrow> (jvalue \<Rightarrow> execution) \<Rightarrow> int \<Rightarrow> jvalue \<Rightarrow> jvalue guarded" where
  "execute_with_timeout opts name originalExecute t0 input =
     (case originalExecute input of
        Throws busy e \<Rightarrow> catch_execute opts name (t0 + int busy) e
      | Returns busy p \<Rightarrow>
          (let raced = withTimeout p (timeout_of opts); t1 = t0 + int busy + fst raced in
           gcatch (try_execute opts name t0 t1 (snd raced)) (catch_execute opts name t1)))"

text \<open>
  The wrapped \<^verbatim>\<open>execute\<close>. \<open>now\<close> is what \<^verbatim>\<open>Date.now()\<close> reads when the call
  starts; the redactor, the sink, the checks and the policy are taken to
  answer at once, so every reading before the tool is called is \<open>now\<close>, and
  the readings after the race are later by the time the tool kept the thread
  and the time the race took. Numbers are integers of absolute value below \<^verbatim>\<open>2^53\<close>, where the
  arithmetic of JavaScript's numbers is exact (a counter that reached \<^verbatim>\<open>2^53\<close>
  would stay there).
\<close>

definition guarded_execute ::
  "GuardToolsOptions \<Rightarrow> string \<Rightarrow> (jvalue \<Rightarrow> execution) \<Rightarrow> int \<Rightarrow> jvalue \<Rightarrow> jvalue guarded" where
  "guarded_execute opts name originalExecute now input =
     gbind (emit_attempted opts name now input) (\<lambda>_.
     gbind (check_tool_budget opts now) (\<lambda>_.
     gbind (check_time_budget opts now) (\<lambda>_.
     gbind (consult_policy opts name input) (\<lambda>decision.
     gbind (enforce_decision opts name now decision) (\<lambda>_.
     execute_with_timeout opts name originalExecute now input)))))"





definition initial_state :: "GuardToolsOptions \<Rightarrow> string \<Rightarrow> int \<Rightarrow> guard_state" where
  "initial_state opts rid now =
     \<lparr> ctx = (case opt_ctx opts of Some c \<Rightarrow> c | None \<Rightarrow> createDefaultContext rid now),
       trace = [], unhandled = [] \<rparr>"


section \<open>Sequences of invocations\<close>

text \<open>
  One call of a wrapped \<^verbatim>\<open>execute\<close> by the host: the tool, its underlying
  \<^verbatim>\<open>execute\<close>, the reading of \<^verbatim>\<open>Date.now()\<close> when the call starts, and the input.
  \<^verbatim>\<open>run_calls\<close> makes the calls one after the other on the shared context.
\<close>

record invocation =
  inv_tool :: string
  inv_execute :: "jvalue \<Rightarrow> execution"
  inv_now :: int
  inv_input :: jvalue

definition invoke :: "GuardToolsOptions \<Rightarrow> invocation \<Rightarrow> jvalue guarded" where
  "invoke opts i = guarded_execute opts (inv_tool i) (inv_execute i) (inv_now i) (inv_input i)"

fun run_calls ::
  "GuardToolsOptions \<Rightarrow> invocation list \<Rightarrow> guard_state \<Rightarrow> (js_error + jvalue) list \<times> guard_state" where
  "run_calls opts [] s = ([], s)"
| "run_calls opts (i # is) s =
     (case invoke opts i s of (r, s1) \<Rightarrow>
        (case run_calls opts is s1 of (rs, s2) \<Rightarrow> (r # rs, s2)))"

fun succeeded :: "js_error + jvalue \<Rightarrow> bool" where
  "succeeded (Inr _) = True"
| "succeeded (Inl _) = False"

section \<open>Vocabulary of the properties\<close>

text \<open>A sink is quiet when no call of its \<^verbatim>\<open>emit\<close> throws (it may still reject later).\<close>

definition quiet :: "AuditSink option \<Rightarrow> bool" where
  "quiet sink = (case sink of None \<Rightarrow> True | Some f \<Rightarrow> \<forall>h e. \<not> emit_throws (f h e))"


text \<open>
  The rejections a sink answers with when it is handed the events \<open>es\<close> after
  the events \<open>h\<close>, and what a quiet sink leaves in the state after it was
  handed the events \<open>es\<close>.
\<close>

fun rejections :: "AuditSink \<Rightarrow> AuditEvent list \<Rightarrow> AuditEvent list \<Rightarrow> js_error list" where
  "rejections f h [] = []"
| "rejections f h (e # es) =
     (case f h e of EmitRejects err \<Rightarrow> [err] | _ \<Rightarrow> []) @ rejections f (h @ [e]) es"

definition logged :: "AuditSink option \<Rightarrow> AuditEvent list \<Rightarrow> guard_state \<Rightarrow> guard_state" where
  "logged sink es s =
     (case sink of
        None \<Rightarrow> s
      | Some f \<Rightarrow> s\<lparr>trace := trace s @ es, unhandled := unhandled s @ rejections f (trace s) es\<rparr>)"

text \<open>The context after one more call was counted; no other field changes.\<close>

definition bump :: "GuardContext \<Rightarrow> GuardContext" where
  "bump c = c\<lparr>toolCalls := toolCalls c + 1\<rparr>"

definition denylisted :: "SimplePolicyOptions \<Rightarrow> string \<Rightarrow> bool" where
  "denylisted options name = (case denylist options of None \<Rightarrow> False | Some dl \<Rightarrow> name \<in> set dl)"

definition not_executed :: "AuditEvent \<Rightarrow> bool" where
  "not_executed e = (event_type e \<noteq> ''tool_call_executed'')"



definition approval_events :: "string \<Rightarrow> int \<Rightarrow> GuardContext \<Rightarrow> GuardDecision \<Rightarrow> AuditEvent list" where
  "approval_events name now c d =
     (case d of AllowNeedsApproval why \<Rightarrow> [ToolCallNeedsApproval name why (requestId c) now] | _ \<Rightarrow> [])"

text \<open>
  The call passes both budget checks and the policy returns the decision \<open>d\<close>,
  which allows it: the underlying \<^verbatim>\<open>execute\<close> is started.
\<close>

definition reaches_execute ::
  "GuardToolsOptions \<Rightarrow> string \<Rightarrow> int \<Rightarrow> jvalue \<Rightarrow> GuardContext \<Rightarrow> GuardDecision \<Rightarrow> bool" where
  "reaches_execute opts name now input c d =
     (toolCalls c < maxToolCalls c \<and> \<not> time_budget_exceeded c now \<and>
      classify_and_decide (policy opts) name input (bump c) = Inr d \<and> decision_allow d)"

text \<open>The redactor, when there is one, returns on the value.\<close>

definition redactable :: "GuardToolsOptions \<Rightarrow> jvalue \<Rightarrow> bool" where
  "redactable opts v = (case redacted opts v of Inl _ \<Rightarrow> False | Inr _ \<Rightarrow> True)"

text \<open>
  Nothing but the call budget can reject the invocation: the redactor returns
  on the input and on the result, the time budget is not exceeded when the
  invocation starts, the policy allows it whatever the counter reads, and the
  tool returns a promise that resolves before the timer fires.
\<close>

definition unobstructed :: "GuardToolsOptions \<Rightarrow> GuardContext \<Rightarrow> invocation \<Rightarrow> bool" where
  "unobstructed opts c i =
     (redactable opts (inv_input i) \<and>
      \<not> time_budget_exceeded c (inv_now i) \<and>
      (\<forall>k. \<exists>d. classify_and_decide (policy opts) (inv_tool i) (inv_input i) (c\<lparr>toolCalls := k\<rparr>) = Inr d
             \<and> decision_allow d) \<and>
      (\<exists>busy d v. inv_execute i (inv_input i) = Returns busy (Settles d (Resolved v)) \<and>
             int d \<le> timer_delay (timeout_of opts) \<and> redactable opts v))"

text \<open>Relations between a stage of the pipeline and the state.\<close>

definition keeps_ctx :: "'a guarded \<Rightarrow> bool" where
  "keeps_ctx m = (\<forall>s. ctx (snd (m s)) = ctx s)"

definition bumps_ctx :: "'a guarded \<Rightarrow> bool" where
  "bumps_ctx m = (\<forall>s. ctx (snd (m s)) = bump (ctx s))"

definition adds_only :: "(AuditEvent \<Rightarrow> bool) \<Rightarrow> 'a guarded \<Rightarrow> bool" where
  "adds_only P m = (\<forall>s. \<exists>es. trace (snd (m s)) = trace s @ es \<and> list_all P es)"



text \<open>
  The demo of the repository: its policy, sinks and tools. The sinks either
  keep the event, or fail on every event by a throw or by a rejection, or
  fail on the timeout event alone.
\<close>

definition demo_opts :: "AuditSink option \<Rightarrow> GuardToolsOptions" where
  "demo_opts sink =
     \<lparr> policy = createSimplePolicy \<lparr> allowlist = None, denylist = Some [''delete_resource''],
                                       requireApprovalForRisk = Some [Write, Admin] \<rparr>,
       opt_ctx = None, audit = sink, timeoutMs = Some 10000, redactor = None \<rparr>"

definition failing_sink :: AuditSink where
  "failing_sink h e = EmitThrows (JsError ''disk full'')"


definition memory_sink :: AuditSink where
  "memory_sink h e = EmitReturns"


definition search_docs :: "jvalue \<Rightarrow> execution" where
  "search_docs input = Returns 0 (Settles 5 (Resolved (JStr ''No matches found for your query.'')))"

definition create_issue :: "jvalue \<Rightarrow> execution" where
  "create_issue input = Returns 0 (Settles 500 (Resolved (JStr ''Created issue ISSUE-1'')))"




text \<open>A redactor that throws on every value, and one that rewrites every value.\<close>

definition throwing_redactor :: "jvalue \<Rightarrow> js_error + jvalue" where
  "throwing_redactor v = Inl (JsError ''cannot redact'')"

definition blanking_redactor :: "jvalue \<Rightarrow> js_error + jvalue" where
  "blanking_redactor v = Inr (JStr ''[REDACTED]'')"

section \<open>The simple policy\<close>

lemma simple_decide_denylisted:
  "denylisted options name \<Longrightarrow>
   simple_decide options name r =
     Deny (''Tool '' @ [CHR 0x27] @ name @ [CHR 0x27] @ '' is in denylist'')"
  by (simp add: simple_decide_def denylisted_def)

lemma simple_decide_not_allowlisted:
  "allowlist options = Some al \<Longrightarrow> name \<notin> set al \<Longrightarrow>
   simple_decide options name r =
     (if denylisted options name
      then Deny (''Tool '' @ [CHR 0x27] @ name @ [CHR 0x27] @ '' is in denylist'')
      else Deny (''Tool '' @ [CHR 0x27] @ name @ [CHR 0x27] @ '' is not in allowlist''))"
  by (simp add: simple_decide_def denylisted_def)

lemma simple_decide_no_allowlist:
  "allowlist options = None \<Longrightarrow> \<not> denylisted options name \<Longrightarrow>
   simple_decide options name r =
     (if r \<in> set (approval_risks options)
      then AllowNeedsApproval (risk_name r @ '' operation requires approval'')
      else Allow)"
  by (simp add: simple_decide_def denylisted_def)

lemma decide_createSimplePolicy:
  "decide (createSimplePolicy options) a = Inr (simple_decide options (arg_toolName a) (arg_risk a))"
  by (simp add: createSimplePolicy_def)

text \<open>
  Claim C2. With an allowlist configured, a name that is not on it is denied,
  whether or not the denylist has it; when the denylist does not have it the
  reason given is the allowlist. Without an allowlist the rule restricts
  nothing: a name that is not denylisted gets the approval-tier decision or
  plain Allow.
\<close>

theorem allowlist_rule:
  "(\<forall>al. allowlist options = Some al \<and> arg_toolName a \<notin> set al \<longrightarrow>
      (\<exists>why. why \<noteq> [] \<and> decide (createSimplePolicy options) a = Inr (Deny why))) \<and>
   (\<forall>al. allowlist options = Some al \<and> al \<noteq> [] \<and> arg_toolName a \<notin> set al \<and>
         \<not> denylisted options (arg_toolName a) \<longrightarrow>
      decide (createSimplePolicy options) a =
        Inr (Deny (''Tool '' @ [CHR 0x27] @ arg_toolName a @ [CHR 0x27] @ '' is not in allowlist''))) \<and>
   (allowlist options = None \<and> \<not> denylisted options (arg_toolName a) \<longrightarrow>
      decide (createSimplePolicy options) a =
        Inr (if arg_risk a \<in> set (approval_risks options)
             then AllowNeedsApproval (risk_name (arg_risk a) @ '' operation requires approval'')
             else Allow))"
  by (simp add: decide_createSimplePolicy simple_decide_not_allowlisted simple_decide_no_allowlist)

theorem allowlist_rule_witness:
  "decide (createSimplePolicy
       \<lparr> allowlist = Some [''search_docs''], denylist = None, requireApprovalForRisk = None \<rparr>)
     \<lparr> arg_toolName = ''send_email'', arg_input = JNull, arg_ctx = createDefaultContext ''r'' 0,
       arg_risk = Write, arg_reason = None \<rparr>
     = Inr (Deny (''Tool '' @ [CHR 0x27] @ ''send_email'' @ [CHR 0x27] @ '' is not in allowlist'')) \<and>
   decide (createSimplePolicy
       \<lparr> allowlist = None, denylist = None, requireApprovalForRisk = None \<rparr>)
     \<lparr> arg_toolName = ''search_docs'', arg_input = JNull, arg_ctx = createDefaultContext ''r'' 0,
       arg_risk = Read, arg_reason = None \<rparr>
     = Inr Allow"
proof -
  have "decide (createSimplePolicy
       \<lparr> allowlist = Some [''search_docs''], denylist = None, requireApprovalForRisk = None \<rparr>)
     \<lparr> arg_toolName = ''send_email'', arg_input = JNull, arg_ctx = createDefaultContext ''r'' 0,
       arg_risk = Write, arg_reason = None \<rparr>
     = Inr (Deny (''Tool '' @ [CHR 0x27] @ ''send_email'' @ [CHR 0x27] @ '' is not in allowlist''))"
    using allowlist_rule[of
        "\<lparr> allowlist = Some [''search_docs''], denylist = None, requireApprovalForRisk = None \<rparr>"
        "\<lparr> arg_toolName = ''send_email'', arg_input = JNull, arg_ctx = createDefaultContext ''r'' 0,
           arg_risk = Write, arg_reason = None \<rparr>"]
    by (simp add: denylisted_def)
  moreover have "decide (createSimplePolicy
       \<lparr> allowlist = None, denylist = None, requireApprovalForRisk = None \<rparr>)
     \<lparr> arg_toolName = ''search_docs'', arg_input = JNull, arg_ctx = createDefaultContext ''r'' 0,
       arg_risk = Read, arg_reason = None \<rparr>
     = Inr Allow"
    using allowlist_rule[of
        "\<lparr> allowlist = None, denylist = None, requireApprovalForRisk = None \<rparr>"
        "\<lparr> arg_toolName = ''search_docs'', arg_input = JNull, arg_ctx = createDefaultContext ''r'' 0,
           arg_risk = Read, arg_reason = None \<rparr>"]
    by (simp add: denylisted_def approval_risks_def)
  ultimately show ?thesis by simp
qed

text \<open>
  Claim C4. A name on the denylist is denied with a non-empty reason, for
  every input, risk tier, allowlist and set of approval tiers: the denylist
  is consulted first.
\<close>

theorem denylist_wins:
  "denylist options = Some dl \<Longrightarrow> arg_toolName a \<in> set dl \<Longrightarrow>
   decide (createSimplePolicy options) a =
     Inr (Deny (''Tool '' @ [CHR 0x27] @ arg_toolName a @ [CHR 0x27] @ '' is in denylist'')) \<and>
   ''Tool '' @ [CHR 0x27] @ arg_toolName a @ [CHR 0x27] @ '' is in denylist'' \<noteq> []"
  by (simp add: decide_createSimplePolicy simple_decide_denylisted denylisted_def)

theorem denylist_wins_witness:
  "decide (createSimplePolicy
       \<lparr> allowlist = Some [''delete_resource''], denylist = Some [''delete_resource''],
         requireApprovalForRisk = Some [Admin] \<rparr>)
     \<lparr> arg_toolName = ''delete_resource'', arg_input = JNull, arg_ctx = createDefaultContext ''r'' 0,
       arg_risk = Admin, arg_reason = None \<rparr>
     = Inr (Deny (''Tool '' @ [CHR 0x27] @ ''delete_resource'' @ [CHR 0x27] @ '' is in denylist''))"
  using denylist_wins[of
      "\<lparr> allowlist = Some [''delete_resource''], denylist = Some [''delete_resource''],
         requireApprovalForRisk = Some [Admin] \<rparr>"
      "[''delete_resource'']"
      "\<lparr> arg_toolName = ''delete_resource'', arg_input = JNull, arg_ctx = createDefaultContext ''r'' 0,
         arg_risk = Admin, arg_reason = None \<rparr>"]
  by simp



section \<open>Stages of the wrapped execute\<close>

lemmas unit_defs = gbind_def gthrow_def greturn_def emit_def redact_def Let_def

lemmas unit_splits = option.splits emit_result.splits sum.splits

lemma gbind_Inl: "m s = (Inl e, s1) \<Longrightarrow> gbind m f s = (Inl e, s1)"
  by (simp add: gbind_def)

lemma gbind_Inr: "m s = (Inr a, s1) \<Longrightarrow> gbind m f s = f a s1"
  by (simp add: gbind_def)

lemma gbind_Inr_iff:
  "gbind m f s = (Inr v, s') \<longleftrightarrow> (\<exists>a s1. m s = (Inr a, s1) \<and> f a s1 = (Inr v, s'))"
  by (auto simp: gbind_def split: prod.splits sum.splits)

lemma gcatch_Inr_iff:
  "gcatch m h s = (Inr v, s') \<longleftrightarrow>
     m s = (Inr v, s') \<or> (\<exists>e s1. m s = (Inl e, s1) \<and> h e s1 = (Inr v, s'))"
  by (auto simp: gcatch_def split: prod.splits sum.splits)

lemma gbind_cases:
  obtains e where "m s = (Inl e, snd (m s))" "gbind m f s = (Inl e, snd (m s))"
  | a where "m s = (Inr a, snd (m s))" "gbind m f s = f a (snd (m s))"
proof (cases "m s")
  case (Pair r s1)
  then show ?thesis
    by (cases r) (auto simp: gbind_def intro: that)
qed

lemma gcatch_cases:
  obtains e where "m s = (Inl e, snd (m s))" "gcatch m h s = h e (snd (m s))"
  | a where "m s = (Inr a, snd (m s))" "gcatch m h s = (Inr a, snd (m s))"
proof (cases "m s")
  case (Pair r s1)
  then show ?thesis
    by (cases r) (auto simp: gcatch_def intro: that)
qed

subsection \<open>What a stage does to the context\<close>

lemma keeps_ctx_gbind:
  assumes "keeps_ctx m" and "\<And>a. keeps_ctx (f a)"
  shows "keeps_ctx (gbind m f)"
  unfolding keeps_ctx_def
proof
  fix s
  show "ctx (snd (gbind m f s)) = ctx s"
  proof (cases rule: gbind_cases[of m s f])
    case (1 e)
    with assms(1) show ?thesis by (simp add: keeps_ctx_def)
  next
    case (2 a)
    with assms(1) assms(2)[of a] show ?thesis by (simp add: keeps_ctx_def)
  qed
qed

lemma keeps_ctx_gcatch:
  assumes "keeps_ctx m" and "\<And>e. keeps_ctx (h e)"
  shows "keeps_ctx (gcatch m h)"
  unfolding keeps_ctx_def
proof
  fix s
  show "ctx (snd (gcatch m h s)) = ctx s"
  proof (cases rule: gcatch_cases[of m s h])
    case (1 e)
    with assms(1) assms(2)[of e] show ?thesis by (simp add: keeps_ctx_def)
  next
    case (2 a)
    with assms(1) show ?thesis by (simp add: keeps_ctx_def)
  qed
qed

lemma bumps_ctx_gbind:
  assumes "bumps_ctx m" and "\<And>a. keeps_ctx (f a)"
  shows "bumps_ctx (gbind m f)"
  unfolding bumps_ctx_def
proof
  fix s
  show "ctx (snd (gbind m f s)) = bump (ctx s)"
  proof (cases rule: gbind_cases[of m s f])
    case (1 e)
    with assms(1) show ?thesis by (simp add: bumps_ctx_def)
  next
    case (2 a)
    with assms(1) assms(2)[of a] show ?thesis by (simp add: bumps_ctx_def keeps_ctx_def)
  qed
qed

lemma keeps_ctx_greturn: "keeps_ctx (greturn a)"
  by (simp add: keeps_ctx_def greturn_def)

lemma keeps_ctx_gthrow: "keeps_ctx (gthrow e)"
  by (simp add: keeps_ctx_def gthrow_def)

lemma keeps_ctx_emit: "keeps_ctx (emit sink mk)"
  by (simp add: keeps_ctx_def emit_def Let_def split: unit_splits)

lemma keeps_ctx_redact: "keeps_ctx (redact opts v)"
  by (simp add: keeps_ctx_def redact_def split: sum.splits)

lemma keeps_ctx_emit_attempted: "keeps_ctx (emit_attempted opts name now input)"
  unfolding emit_attempted_def by (intro keeps_ctx_gbind keeps_ctx_redact keeps_ctx_emit)

lemma bumps_ctx_check_tool_budget: "bumps_ctx (check_tool_budget opts now)"
  by (simp add: bumps_ctx_def bump_def check_tool_budget_def increment_toolCalls_def unit_defs
      split: unit_splits)

lemma keeps_ctx_check_time_budget: "keeps_ctx (check_time_budget opts now)"
  by (simp add: keeps_ctx_def check_time_budget_def unit_defs split: unit_splits)

lemma keeps_ctx_consult_policy: "keeps_ctx (consult_policy opts name input)"
  by (simp add: keeps_ctx_def consult_policy_def unit_defs split: sum.splits)

lemma keeps_ctx_enforce_decision: "keeps_ctx (enforce_decision opts name now d)"
  by (cases d) (simp_all add: keeps_ctx_def enforce_decision_def unit_defs split: unit_splits)

lemma keeps_ctx_try_execute: "keeps_ctx (try_execute opts name t0 t1 settled)"
proof (cases settled)
  case (Resolved result)
  then show ?thesis
    unfolding try_execute_def
    by (simp add: keeps_ctx_gbind keeps_ctx_redact keeps_ctx_emit keeps_ctx_greturn)
next
  case (Rejected e)
  then show ?thesis by (simp add: try_execute_def keeps_ctx_gthrow)
qed

lemma keeps_ctx_catch_execute: "keeps_ctx (catch_execute opts name t1 e)"
  by (simp add: catch_execute_def keeps_ctx_gbind keeps_ctx_emit keeps_ctx_gthrow)

lemma keeps_ctx_execute_with_timeout: "keeps_ctx (execute_with_timeout opts name ex t0 input)"
  by (cases "ex input")
     (simp_all add: execute_with_timeout_def Let_def keeps_ctx_gcatch keeps_ctx_try_execute
        keeps_ctx_catch_execute)

lemma bumps_ctx_after_attempt:
  "bumps_ctx (gbind (check_tool_budget opts now) (\<lambda>_.
     gbind (check_time_budget opts now) (\<lambda>_.
     gbind (consult_policy opts name input) (\<lambda>decision.
     gbind (enforce_decision opts name now decision) (\<lambda>_.
     execute_with_timeout opts name ex now input)))))"
  by (intro bumps_ctx_gbind keeps_ctx_gbind bumps_ctx_check_tool_budget keeps_ctx_check_time_budget
      keeps_ctx_consult_policy keeps_ctx_enforce_decision keeps_ctx_execute_with_timeout)

subsection \<open>What a stage hands to the sink\<close>

lemma adds_only_gbind:
  assumes "adds_only P m" and "\<And>a. adds_only P (f a)"
  shows "adds_only P (gbind m f)"
  unfolding adds_only_def
proof
  fix s
  from assms(1) obtain es where es: "trace (snd (m s)) = trace s @ es" "list_all P es"
    unfolding adds_only_def by blast
  show "\<exists>es. trace (snd (gbind m f s)) = trace s @ es \<and> list_all P es"
  proof (cases rule: gbind_cases[of m s f])
    case (1 e)
    with es show ?thesis by auto
  next
    case (2 a)
    from assms(2)[of a] obtain fs where
      "trace (snd (f a (snd (m s)))) = trace (snd (m s)) @ fs" "list_all P fs"
      unfolding adds_only_def by blast
    with es 2 have "trace (snd (gbind m f s)) = trace s @ (es @ fs) \<and> list_all P (es @ fs)"
      by simp
    then show ?thesis by blast
  qed
qed

lemma adds_only_gcatch:
  assumes "adds_only P m" and "\<And>e. adds_only P (h e)"
  shows "adds_only P (gcatch m h)"
  unfolding adds_only_def
proof
  fix s
  from assms(1) obtain es where es: "trace (snd (m s)) = trace s @ es" "list_all P es"
    unfolding adds_only_def by blast
  show "\<exists>es. trace (snd (gcatch m h s)) = trace s @ es \<and> list_all P es"
  proof (cases rule: gcatch_cases[of m s h])
    case (1 e)
    from assms(2)[of e] obtain fs where
      "trace (snd (h e (snd (m s)))) = trace (snd (m s)) @ fs" "list_all P fs"
      unfolding adds_only_def by blast
    with es 1 have "trace (snd (gcatch m h s)) = trace s @ (es @ fs) \<and> list_all P (es @ fs)"
      by simp
    then show ?thesis by blast
  next
    case (2 a)
    with es show ?thesis by auto
  qed
qed

lemma adds_only_weaken: "adds_only P m \<Longrightarrow> adds_only (\<lambda>_. True) m"
  by (auto simp: adds_only_def list_all_iff)

lemma adds_only_greturn: "adds_only P (greturn a)"
  by (simp add: adds_only_def greturn_def)

lemma adds_only_gthrow: "adds_only P (gthrow e)"
  by (simp add: adds_only_def gthrow_def)

lemma adds_only_emit: "(\<And>s. P (mk s)) \<Longrightarrow> adds_only P (emit sink mk)"
  by (simp add: adds_only_def emit_def Let_def split: unit_splits)

lemma adds_only_redact: "adds_only P (redact opts v)"
  by (simp add: adds_only_def redact_def split: sum.splits)


lemma adds_only_check_tool_budget: "adds_only not_executed (check_tool_budget opts now)"
  by (simp add: adds_only_def not_executed_def check_tool_budget_def increment_toolCalls_def
      unit_defs split: unit_splits)

lemma adds_only_check_time_budget: "adds_only not_executed (check_time_budget opts now)"
  by (simp add: adds_only_def not_executed_def check_time_budget_def unit_defs split: unit_splits)

lemma adds_only_consult_policy: "adds_only P (consult_policy opts name input)"
  by (simp add: adds_only_def consult_policy_def unit_defs split: sum.splits)

lemma adds_only_enforce_decision: "adds_only not_executed (enforce_decision opts name now d)"
  by (cases d) (simp_all add: adds_only_def not_executed_def enforce_decision_def unit_defs
      split: unit_splits)

lemma adds_only_try_execute: "adds_only (\<lambda>_. True) (try_execute opts name t0 t1 settled)"
proof (cases settled)
  case (Resolved result)
  then show ?thesis
    unfolding try_execute_def
    by (simp add: adds_only_gbind adds_only_redact adds_only_emit adds_only_greturn)
next
  case (Rejected e)
  then show ?thesis by (simp add: try_execute_def adds_only_gthrow)
qed


lemma adds_only_catch_execute: "adds_only not_executed (catch_execute opts name t1 e)"
  by (simp add: catch_execute_def adds_only_gbind adds_only_emit adds_only_gthrow not_executed_def)

lemma adds_only_execute_with_timeout:
  "adds_only (\<lambda>_. True) (execute_with_timeout opts name ex t0 input)"
  by (cases "ex input")
     (simp_all add: execute_with_timeout_def Let_def adds_only_gcatch adds_only_try_execute
        adds_only_weaken[OF adds_only_catch_execute])



lemma adds_only_after_attempt:
  "adds_only (\<lambda>_. True) (gbind (check_tool_budget opts now) (\<lambda>_.
     gbind (check_time_budget opts now) (\<lambda>_.
     gbind (consult_policy opts name input) (\<lambda>decision.
     gbind (enforce_decision opts name now decision) (\<lambda>_.
     execute_with_timeout opts name ex now input)))))"
  by (intro adds_only_gbind adds_only_weaken[OF adds_only_check_tool_budget]
      adds_only_weaken[OF adds_only_check_time_budget] adds_only_consult_policy
      adds_only_weaken[OF adds_only_enforce_decision] adds_only_execute_with_timeout)


subsection \<open>What a stage leaves unhandled\<close>















subsection \<open>Stages under a quiet sink\<close>

lemma rejections_append:
  "rejections f h (es @ fs) = rejections f h es @ rejections f (h @ es) fs"
  by (induction es arbitrary: h) simp_all

lemma emit_quiet:
  "quiet sink \<Longrightarrow> emit sink mk s = (Inr (), logged sink [mk s] s)"
proof (cases sink)
  case None
  then show ?thesis by (simp add: emit_def logged_def)
next
  case (Some f)
  assume "quiet sink"
  with Some have "\<not> emit_throws (f (trace s) (mk s))" by (simp add: quiet_def)
  with Some show ?thesis
    by (cases "f (trace s) (mk s)") (simp_all add: emit_def Let_def logged_def)
qed

lemma logged_simps [simp]:
  "ctx (logged sink es s) = ctx s"
  "logged sink es (s\<lparr>ctx := c\<rparr>) = (logged sink es s)\<lparr>ctx := c\<rparr>"
  "logged sink fs (logged sink es s) = logged sink (es @ fs) s"
  "logged None es s = s"
  "trace (logged (Some f) es s) = trace s @ es"
  by (simp_all add: logged_def rejections_append split: option.splits)

lemma bump_simps [simp]:
  "requestId (bump c) = requestId c" "maxToolCalls (bump c) = maxToolCalls c"
  "startTime (bump c) = startTime c" "maxDurationMs (bump c) = maxDurationMs c"
  "toolCalls (bump c) = toolCalls c + 1"
  "time_budget_exceeded (bump c) now = time_budget_exceeded c now"
  "tool_budget_reason (bump c) = tool_budget_reason c"
  by (simp_all add: bump_def time_budget_exceeded_def tool_budget_reason_def split: option.splits)

lemma redact_ok: "redacted opts v = Inr w \<Longrightarrow> redact opts v s = (Inr w, s)"
  by (simp add: redact_def)

lemma redact_throws: "redacted opts v = Inl e \<Longrightarrow> redact opts v s = (Inl e, s)"
  by (simp add: redact_def)

lemma redactableE: "redactable opts v \<Longrightarrow> (\<And>w. redacted opts v = Inr w \<Longrightarrow> thesis) \<Longrightarrow> thesis"
  by (auto simp: redactable_def split: sum.splits)

lemma emit_attempted_ok:
  "quiet (audit opts) \<Longrightarrow> redacted opts input = Inr ri \<Longrightarrow>
   emit_attempted opts name now input s =
     (Inr (), logged (audit opts) [ToolCallAttempted name ri (requestId (ctx s)) now] s)"
  by (simp add: emit_attempted_def gbind_def redact_ok emit_quiet)

lemma check_tool_budget_ok:
  "toolCalls (ctx s) < maxToolCalls (ctx s) \<Longrightarrow>
   check_tool_budget opts now s = (Inr (), s\<lparr>ctx := bump (ctx s)\<rparr>)"
  by (simp add: check_tool_budget_def increment_toolCalls_def gbind_def greturn_def bump_def)

lemma check_tool_budget_over:
  "quiet (audit opts) \<Longrightarrow> maxToolCalls (ctx s) \<le> toolCalls (ctx s) \<Longrightarrow>
   check_tool_budget opts now s =
     (Inl (JsError (tool_budget_reason (ctx s))),
      logged (audit opts) [BudgetExceeded (tool_budget_reason (ctx s)) (requestId (ctx s)) now]
        (s\<lparr>ctx := bump (ctx s)\<rparr>))"
  by (simp add: check_tool_budget_def increment_toolCalls_def gbind_def gthrow_def
      emit_quiet bump_def tool_budget_reason_def)

lemma check_time_budget_ok:
  "\<not> time_budget_exceeded (ctx s) now \<Longrightarrow> check_time_budget opts now s = (Inr (), s)"
  by (auto simp: check_time_budget_def time_budget_exceeded_def greturn_def split: option.splits)

lemma consult_policy_ok:
  "classify_and_decide (policy opts) name input (ctx s) = Inr d \<Longrightarrow>
   consult_policy opts name input s = (Inr d, s)"
  by (simp add: consult_policy_def greturn_def)

lemma enforce_decision_ok:
  "quiet (audit opts) \<Longrightarrow> decision_allow d \<Longrightarrow>
   enforce_decision opts name now d s =
     (Inr (), logged (audit opts) (approval_events name now (ctx s) d) s)"
  by (cases d) (simp_all add: enforce_decision_def greturn_def emit_quiet
      approval_events_def logged_def split: option.splits)



lemma execute_with_timeout_ok:
  "quiet (audit opts) \<Longrightarrow> ex input = Returns busy (Settles d (Resolved v)) \<Longrightarrow>
   int d \<le> timer_delay (timeout_of opts) \<Longrightarrow> redactable opts v \<Longrightarrow>
   execute_with_timeout opts name ex t0 input s =
     (Inr v, logged (audit opts)
        [ToolCallExecuted name (int busy + int d) (requestId (ctx s)) (t0 + int busy + int d)] s)"
  by (erule redactableE)
     (simp add: execute_with_timeout_def withTimeout_def try_execute_def greturn_def
        gcatch_def gbind_def redact_ok emit_quiet Let_def)

lemma guarded_execute_reaches:
  assumes q: "quiet (audit opts)" and red: "redacted opts input = Inr ri"
    and re: "reaches_execute opts name now input (ctx s) d"
  shows "guarded_execute opts name ex now input s =
     execute_with_timeout opts name ex now input
       (logged (audit opts)
          (ToolCallAttempted name ri (requestId (ctx s)) now #
           approval_events name now (ctx s) d)
          (s\<lparr>ctx := bump (ctx s)\<rparr>))"
proof -
  let ?att = "ToolCallAttempted name ri (requestId (ctx s)) now"
  let ?s1 = "logged (audit opts) [?att] s"
  let ?s2 = "?s1\<lparr>ctx := bump (ctx s)\<rparr>"
  have 1: "emit_attempted opts name now input s = (Inr (), ?s1)"
    using q red by (rule emit_attempted_ok)
  have 2: "check_tool_budget opts now ?s1 = (Inr (), ?s2)"
    using re by (simp add: check_tool_budget_ok reaches_execute_def)
  have 3: "check_time_budget opts now ?s2 = (Inr (), ?s2)"
    using re by (simp add: check_time_budget_ok reaches_execute_def)
  have 4: "consult_policy opts name input ?s2 = (Inr d, ?s2)"
    using re by (simp add: consult_policy_ok reaches_execute_def)
  have 5: "enforce_decision opts name now d ?s2 =
      (Inr (), logged (audit opts) (approval_events name now (bump (ctx s)) d) ?s2)"
    using q re by (simp add: enforce_decision_ok reaches_execute_def)
  have ae: "approval_events name now (bump (ctx s)) d = approval_events name now (ctx s) d"
    by (cases d) (simp_all add: approval_events_def)
  show ?thesis
    unfolding guarded_execute_def
    by (simp add: gbind_def 1 2 3 4 5 ae)
qed


section \<open>The result handed back to the host\<close>

lemma try_execute_Inr:
  "try_execute opts name t0 t1 settled s = (Inr v, s') \<Longrightarrow>
   settled = Resolved v \<and> redactable opts v"
  by (cases settled)
     (auto simp: try_execute_def gbind_Inr_iff greturn_def gthrow_def redact_def redactable_def
        split: sum.splits)

lemma catch_execute_Inl: "fst (catch_execute opts name t1 e s) \<noteq> Inr v"
  by (auto simp: catch_execute_def gbind_def gthrow_def split: prod.splits sum.splits)

lemma execute_with_timeout_Inr:
  assumes "execute_with_timeout opts name ex t0 input s = (Inr v, s')"
  shows "\<exists>busy d. ex input = Returns busy (Settles d (Resolved v)) \<and>
           int d \<le> timer_delay (timeout_of opts) \<and> redactable opts v"
proof (cases "ex input")
  case (Throws busy e)
  with assms catch_execute_Inl[of opts name "t0 + int busy" e s v] show ?thesis
    by (simp add: execute_with_timeout_def)
next
  case (Returns busy p)
  let ?raced = "withTimeout p (timeout_of opts)"
  let ?t1 = "t0 + int busy + fst ?raced"
  from assms Returns
  have "gcatch (try_execute opts name t0 ?t1 (snd ?raced)) (catch_execute opts name ?t1) s = (Inr v, s')"
    by (simp add: execute_with_timeout_def Let_def)
  then have "try_execute opts name t0 ?t1 (snd ?raced) s = (Inr v, s')"
    unfolding gcatch_Inr_iff using catch_execute_Inl[of opts name ?t1 _ _ v]
    by (metis fst_conv)
  then have r: "snd ?raced = Resolved v" and ok: "redactable opts v"
    using try_execute_Inr by blast+
  from r have "\<exists>d. p = Settles d (Resolved v) \<and> int d \<le> timer_delay (timeout_of opts)"
    by (cases p) (auto simp: withTimeout_def split: if_splits)
  with Returns ok show ?thesis by blast
qed

lemma guarded_execute_Inr:
  "guarded_execute opts name ex now input s = (Inr v, s') \<Longrightarrow>
   \<exists>busy d. ex input = Returns busy (Settles d (Resolved v)) \<and>
     int d \<le> timer_delay (timeout_of opts) \<and> redactable opts v"
  unfolding guarded_execute_def gbind_Inr_iff
  by (blast dest: execute_with_timeout_Inr)

text \<open>
  Claim C5. Whatever redactor is configured, a wrapped execute that succeeds
  returns the very value with which the promise of the underlying execute,
  called on the original input, resolved (and it resolved before the timer
  fired). The redactor only shapes the input field of the attempted event.
\<close>

theorem returns_original_result:
  "guarded_execute opts name ex now input s = (Inr v, s') \<Longrightarrow>
   (\<exists>busy d. ex input = Returns busy (Settles d (Resolved v)) \<and>
      int d \<le> timer_delay (timeout_of opts))"
  by (blast dest: guarded_execute_Inr)

theorem returns_original_result_witness:
  "fst (guarded_execute ((demo_opts (Some memory_sink))\<lparr>redactor := Some blanking_redactor\<rparr>)
         ''search_docs'' search_docs 0 (JObj [(''query'', JStr ''mcp'')])
         (initial_state (demo_opts (Some memory_sink)) ''req-1'' 0))
     = Inr (JStr ''No matches found for your query.'') \<and>
   (\<exists>busy d. search_docs (JObj [(''query'', JStr ''mcp'')])
          = Returns busy (Settles d (Resolved (JStr ''No matches found for your query.''))) \<and>
        int d \<le> timer_delay (timeout_of ((demo_opts (Some memory_sink))\<lparr>redactor := Some blanking_redactor\<rparr>)))"
proof -
  let ?opts = "(demo_opts (Some memory_sink))\<lparr>redactor := Some blanking_redactor\<rparr>"
  let ?run = "guarded_execute ?opts ''search_docs'' search_docs 0 (JObj [(''query'', JStr ''mcp'')])
         (initial_state (demo_opts (Some memory_sink)) ''req-1'' 0)"
  have f: "fst ?run = Inr (JStr ''No matches found for your query.'')"
    by code_simp
  then have "?run = (Inr (JStr ''No matches found for your query.''), snd ?run)"
    by (metis prod.collapse)
  from returns_original_result[OF this] f show ?thesis by simp
qed

section \<open>The approval predicate\<close>





section \<open>The call counter\<close>

lemma attempt_effect:
  assumes run: "guarded_execute opts name ex now input s = (r, s')"
  shows "(\<forall>e. redacted opts input = Inl e \<longrightarrow> r = Inl e \<and> s' = s) \<and>
         (\<forall>ri. redacted opts input = Inr ri \<longrightarrow>
            (audit opts = None \<longrightarrow> ctx s' = bump (ctx s)) \<and>
            (\<forall>f. audit opts = Some f \<longrightarrow>
               (\<exists>rest. trace s' = trace s @
                  ToolCallAttempted name ri (requestId (ctx s)) now # rest) \<and>
               (\<forall>e. f (trace s) (ToolCallAttempted name ri (requestId (ctx s)) now)
                       = EmitThrows e \<longrightarrow> r = Inl e \<and> ctx s' = ctx s) \<and>
               (\<not> emit_throws (f (trace s)
                       (ToolCallAttempted name ri (requestId (ctx s)) now)) \<longrightarrow>
                  ctx s' = bump (ctx s))))"
proof (intro conjI allI impI)
  fix e
  assume "redacted opts input = Inl e"
  then have "emit_attempted opts name now input s = (Inl e, s)"
    by (simp add: emit_attempted_def gbind_def redact_throws)
  with run show "r = Inl e" "s' = s"
    by (simp_all add: guarded_execute_def gbind_Inl)
next
  fix ri
  assume red: "redacted opts input = Inr ri"
  let ?att = "ToolCallAttempted name ri (requestId (ctx s)) now"
  define B where "B =
     gbind (check_tool_budget opts now) (\<lambda>_.
     gbind (check_time_budget opts now) (\<lambda>_.
     gbind (consult_policy opts name input) (\<lambda>decision.
     gbind (enforce_decision opts name now decision) (\<lambda>_.
     execute_with_timeout opts name ex now input))))"
  have G: "guarded_execute opts name ex now input s =
      gbind (emit (audit opts) (\<lambda>s. ToolCallAttempted name ri (requestId (ctx s)) now)) (\<lambda>_. B) s"
    using red by (simp add: guarded_execute_def B_def emit_attempted_def gbind_def redact_ok)
  have bumpB: "\<And>t. ctx (snd (B t)) = bump (ctx t)"
    using bumps_ctx_after_attempt[of opts now name input ex] by (simp add: B_def bumps_ctx_def)
  have growB: "\<And>t. \<exists>es. trace (snd (B t)) = trace t @ es"
    using adds_only_after_attempt[of opts now name input ex] by (auto simp: B_def adds_only_def)
  {
    assume "audit opts = None"
    then have "emit (audit opts) (\<lambda>s. ToolCallAttempted name ri (requestId (ctx s)) now) s = (Inr (), s)"
      by (simp add: emit_def)
    with run G have "B s = (r, s')" by (simp add: gbind_Inr)
    with bumpB[of s] show "ctx s' = bump (ctx s)" by simp
  }
  fix f
  assume f: "audit opts = Some f"
  let ?s1 = "s\<lparr>trace := trace s @ [?att]\<rparr>"
  have split: "(\<exists>rest. trace s' = trace s @ ?att # rest) \<and>
      (\<forall>e. f (trace s) ?att = EmitThrows e \<longrightarrow> r = Inl e \<and> ctx s' = ctx s) \<and>
      (\<not> emit_throws (f (trace s) ?att) \<longrightarrow> ctx s' = bump (ctx s))"
  proof (cases "emit_throws (f (trace s) ?att)")
    case True
    then obtain e where e: "f (trace s) ?att = EmitThrows e"
      by (cases "f (trace s) ?att") simp_all
    with f have "emit (audit opts) (\<lambda>s. ToolCallAttempted name ri (requestId (ctx s)) now) s
        = (Inl e, ?s1)"
      by (simp add: emit_def)
    with run G have "r = Inl e" "s' = ?s1" by (simp_all add: gbind_Inl)
    with e show ?thesis by simp
  next
    case False
    with f obtain s1 where
      s1: "emit (audit opts) (\<lambda>s. ToolCallAttempted name ri (requestId (ctx s)) now) s = (Inr (), s1)"
        "ctx s1 = ctx s" "trace s1 = trace s @ [?att]"
      by (cases "f (trace s) ?att") (simp_all add: emit_def)
    with run G have B: "B s1 = (r, s')" by (simp add: gbind_Inr)
    from growB[of s1] B s1 obtain es where "trace s' = trace s @ ?att # es" by auto
    moreover from bumpB[of s1] B s1 have "ctx s' = bump (ctx s)" by simp
    ultimately show ?thesis using False by auto
  qed
  from split show "\<exists>rest. trace s' = trace s @ ?att # rest" by blast
  {
    fix e
    assume "f (trace s) ?att = EmitThrows e"
    with split show "r = Inl e" "ctx s' = ctx s" by blast+
  }
  assume "\<not> emit_throws (f (trace s) ?att)"
  with split show "ctx s' = bump (ctx s)" by blast
qed

lemma toolCalls_mono:
  "toolCalls (ctx s) \<le> toolCalls (ctx (snd (guarded_execute opts name ex now input s)))"
proof -
  obtain r s' where run: "guarded_execute opts name ex now input s = (r, s')"
    by (cases "guarded_execute opts name ex now input s")
  have "ctx s' = ctx s \<or> ctx s' = bump (ctx s)"
  proof (cases "redacted opts input")
    case (Inl e)
    with attempt_effect[OF run] show ?thesis by simp
  next
    case (Inr ri)
    show ?thesis
    proof (cases "audit opts")
      case None
      with Inr attempt_effect[OF run] show ?thesis by simp
    next
      case (Some f)
      with Inr attempt_effect[OF run] show ?thesis
        by (cases "f (trace s) (ToolCallAttempted name ri (requestId (ctx s)) now)") auto
    qed
  qed
  with run show ?thesis by (auto simp: bump_def)
qed

text \<open>
  Claim C10, as stated, fails: a sink whose \<^verbatim>\<open>emit\<close> throws on the attempted
  event is handed the event, and the invocation ends there with the counter
  where it was; a redactor that throws on the input ends the invocation
  before the event and before the increment.
\<close>

theorem attempt_without_increment:
  "trace (snd (guarded_execute (demo_opts (Some failing_sink)) ''search_docs'' search_docs 7 JNull
        (initial_state (demo_opts (Some failing_sink)) ''req-1'' 0)))
     = [ToolCallAttempted ''search_docs'' JNull ''req-1'' 7] \<and>
   toolCalls (ctx (initial_state (demo_opts (Some failing_sink)) ''req-1'' 0)) = 0 \<and>
   toolCalls (ctx (snd (guarded_execute (demo_opts (Some failing_sink)) ''search_docs'' search_docs 7 JNull
        (initial_state (demo_opts (Some failing_sink)) ''req-1'' 0)))) = 0 \<and>
   guarded_execute ((demo_opts (Some memory_sink))\<lparr>redactor := Some throwing_redactor\<rparr>)
        ''search_docs'' search_docs 7 JNull (initial_state (demo_opts (Some memory_sink)) ''req-1'' 0)
     = (Inl (JsError ''cannot redact''), initial_state (demo_opts (Some memory_sink)) ''req-1'' 0)"
  by code_simp

text \<open>
  Claim C10, amended. When the redactor (if any) returns on the input, the
  sink (if any) is handed the attempted event before anything else happens,
  and once that call of \<^verbatim>\<open>emit\<close> has returned, or when no sink is configured,
  the counter is incremented by exactly one and no other field of the
  context changes, whatever the outcome of the invocation: success, budget
  or duration rejection, policy denial, policy error or timeout. A throw of
  \<^verbatim>\<open>emit\<close> on the attempted event ends the invocation with that error and
  leaves the counter untouched; a throw of the redactor on the input ends it
  with that error and leaves the whole state untouched.
\<close>

theorem attempt_consumes_budget:
  assumes "guarded_execute opts name ex now input s = (r, s')"
  shows "(\<forall>e. redacted opts input = Inl e \<longrightarrow> r = Inl e \<and> s' = s) \<and>
         (\<forall>ri. redacted opts input = Inr ri \<longrightarrow>
            (audit opts = None \<longrightarrow> ctx s' = bump (ctx s)) \<and>
            (\<forall>f. audit opts = Some f \<longrightarrow>
               (\<exists>rest. trace s' = trace s @
                  ToolCallAttempted name ri (requestId (ctx s)) now # rest) \<and>
               (\<forall>e. f (trace s) (ToolCallAttempted name ri (requestId (ctx s)) now)
                       = EmitThrows e \<longrightarrow> r = Inl e \<and> ctx s' = ctx s) \<and>
               (\<not> emit_throws (f (trace s)
                       (ToolCallAttempted name ri (requestId (ctx s)) now)) \<longrightarrow>
                  ctx s' = bump (ctx s))))"
  using assms by (rule attempt_effect)


lemma demo_opts_simps [simp]:
  "audit (demo_opts sink) = sink" "redactor (demo_opts sink) = None"
  "timeout_of (demo_opts sink) = 10000"
  "redacted (demo_opts sink) v = Inr v" "redactable (demo_opts sink) v"
  "ctx (initial_state (demo_opts sink) rid now) = createDefaultContext rid now"
  "trace (initial_state (demo_opts sink) rid now) = []"
  "unhandled (initial_state (demo_opts sink) rid now) = []"
  by (simp_all add: demo_opts_def timeout_of_def initial_state_def redacted_def redactable_def)

lemma quiet_memory_sink: "quiet (Some memory_sink)" "quiet None"
  by (simp_all add: quiet_def memory_sink_def)


lemma demo_policy_decides:
  "classify_and_decide (policy (demo_opts sink)) name input c =
     Inr (simple_decide \<lparr> allowlist = None, denylist = Some [''delete_resource''],
                           requireApprovalForRisk = Some [Write, Admin] \<rparr>
            name (fst (simple_classify name)))"
  by (simp add: classify_and_decide_def demo_opts_def createSimplePolicy_def split: prod.splits)

lemma demo_search_docs_allowed:
  "simple_decide \<lparr> allowlist = None, denylist = Some [''delete_resource''],
                    requireApprovalForRisk = Some [Write, Admin] \<rparr>
     ''search_docs'' (fst (simple_classify ''search_docs'')) = Allow"
  by code_simp

theorem attempt_consumes_budget_witness:
  "fst (guarded_execute (demo_opts (Some memory_sink)) ''delete_resource'' search_docs 7 JNull
         (initial_state (demo_opts (Some memory_sink)) ''req-1'' 0))
     = Inl (JsError (''Tool call blocked: Tool '' @ [CHR 0x27] @ ''delete_resource'' @ [CHR 0x27]
                      @ '' is in denylist'')) \<and>
   toolCalls (ctx (snd (guarded_execute (demo_opts (Some memory_sink)) ''delete_resource'' search_docs 7
         JNull (initial_state (demo_opts (Some memory_sink)) ''req-1'' 0)))) = 1 \<and>
   (\<exists>rest. trace (snd (guarded_execute (demo_opts (Some memory_sink)) ''delete_resource'' search_docs 7
         JNull (initial_state (demo_opts (Some memory_sink)) ''req-1'' 0)))
       = ToolCallAttempted ''delete_resource'' JNull ''req-1'' 7 # rest)"
proof -
  let ?s = "initial_state (demo_opts (Some memory_sink)) ''req-1'' 0"
  let ?run = "guarded_execute (demo_opts (Some memory_sink)) ''delete_resource'' search_docs 7 JNull ?s"
  have f: "fst ?run = Inl (JsError (''Tool call blocked: Tool '' @ [CHR 0x27] @ ''delete_resource''
                      @ [CHR 0x27] @ '' is in denylist''))"
    by code_simp
  have run: "?run = (fst ?run, snd ?run)" by simp
  from attempt_consumes_budget[OF run]
  have "(\<exists>rest. trace (snd ?run) = ToolCallAttempted ''delete_resource'' JNull ''req-1'' 7 # rest) \<and>
        ctx (snd ?run) = bump (createDefaultContext ''req-1'' 0)"
    by (simp add: memory_sink_def createDefaultContext_def)
  with f show ?thesis by (simp add: createDefaultContext_def)
qed

section \<open>The call budget\<close>

lemma unobstructed_toolCalls [simp]:
  "unobstructed opts (c\<lparr>toolCalls := j\<rparr>) i = unobstructed opts c i"
  by (simp add: unobstructed_def time_budget_exceeded_def split: option.splits)

lemma invoke_unobstructed:
  assumes q: "quiet (audit opts)" and u: "unobstructed opts (ctx s) i"
    and b: "toolCalls (ctx s) < maxToolCalls (ctx s)"
  shows "\<exists>v s1. invoke opts i s = (Inr v, s1) \<and> ctx s1 = bump (ctx s)"
proof -
  from u obtain d where d: "classify_and_decide (policy opts) (inv_tool i) (inv_input i) (bump (ctx s)) = Inr d"
      "decision_allow d"
    unfolding unobstructed_def bump_def by blast
  from u obtain busy dt v where
    ex: "inv_execute i (inv_input i) = Returns busy (Settles dt (Resolved v))"
      "int dt \<le> timer_delay (timeout_of opts)" "redactable opts v"
    unfolding unobstructed_def by blast
  from u obtain ri where red: "redacted opts (inv_input i) = Inr ri"
    unfolding unobstructed_def by (blast elim: redactableE)
  from u b d have re: "reaches_execute opts (inv_tool i) (inv_now i) (inv_input i) (ctx s) d"
    by (simp add: reaches_execute_def unobstructed_def)
  show ?thesis
    unfolding invoke_def guarded_execute_reaches[OF q red re]
      execute_with_timeout_ok[where ex="inv_execute i" and input="inv_input i", OF q ex]
    by simp
qed

lemma invoke_over_budget:
  assumes q: "quiet (audit opts)" and red: "redacted opts (inv_input i) = Inr ri"
    and b: "maxToolCalls (ctx s) \<le> toolCalls (ctx s)"
  shows "invoke opts i s =
     (Inl (JsError (tool_budget_reason (ctx s))),
      logged (audit opts)
        [ToolCallAttempted (inv_tool i) ri (requestId (ctx s)) (inv_now i),
         BudgetExceeded (tool_budget_reason (ctx s)) (requestId (ctx s)) (inv_now i)]
        (s\<lparr>ctx := bump (ctx s)\<rparr>))"
proof -
  let ?att = "ToolCallAttempted (inv_tool i) ri (requestId (ctx s)) (inv_now i)"
  let ?s1 = "logged (audit opts) [?att] s"
  have 1: "emit_attempted opts (inv_tool i) (inv_now i) (inv_input i) s = (Inr (), ?s1)"
    using q red by (rule emit_attempted_ok)
  have 2: "check_tool_budget opts (inv_now i) ?s1 =
     (Inl (JsError (tool_budget_reason (ctx s))),
      logged (audit opts) [BudgetExceeded (tool_budget_reason (ctx s)) (requestId (ctx s)) (inv_now i)]
        (?s1\<lparr>ctx := bump (ctx s)\<rparr>))"
    using check_tool_budget_over[OF q, of ?s1 "inv_now i"] b by simp
  show ?thesis
    unfolding invoke_def guarded_execute_def
    by (simp add: gbind_def 1 2)
qed

lemma run_calls_within_budget:
  assumes q: "quiet (audit opts)"
  shows "\<forall>i\<in>set is. unobstructed opts (ctx s) i \<Longrightarrow>
     toolCalls (ctx s) + int (length is) \<le> maxToolCalls (ctx s) \<Longrightarrow>
     \<exists>rs s1. run_calls opts is s = (rs, s1) \<and> length rs = length is \<and> list_all succeeded rs \<and>
        ctx s1 = (ctx s)\<lparr>toolCalls := toolCalls (ctx s) + int (length is)\<rparr>"
proof (induction "is" arbitrary: s)
  case Nil
  then show ?case by simp
next
  case (Cons i "is")
  from Cons.prems have "unobstructed opts (ctx s) i" "toolCalls (ctx s) < maxToolCalls (ctx s)"
    by simp_all
  from invoke_unobstructed[OF q this] obtain v s1 where
    s1: "invoke opts i s = (Inr v, s1)" "ctx s1 = bump (ctx s)" by blast
  from Cons.prems s1 have "\<forall>j\<in>set is. unobstructed opts (ctx s1) j"
    and "toolCalls (ctx s1) + int (length is) \<le> maxToolCalls (ctx s1)"
    by (simp_all add: bump_def)
  from Cons.IH[OF this] obtain rs s2 where
    rs: "run_calls opts is s1 = (rs, s2)" "length rs = length is" "list_all succeeded rs"
      "ctx s2 = (ctx s1)\<lparr>toolCalls := toolCalls (ctx s1) + int (length is)\<rparr>"
    by blast
  with s1 show ?case by (simp add: bump_def add.commute add.left_commute)
qed

lemma run_calls_append:
  "run_calls opts (xs @ ys) s =
     (case run_calls opts xs s of (rs, s1) \<Rightarrow>
        (case run_calls opts ys s1 of (rs', s2) \<Rightarrow> (rs @ rs', s2)))"
  by (induction xs arbitrary: s) (simp_all split: prod.splits)

text \<open>
  Claim C3. On a fresh context with \<^verbatim>\<open>maxToolCalls = N\<close>, a quiet sink and
  \<open>N\<close> invocations that nothing but the call budget could reject, followed by
  one more invocation of any kind (on whose input the redactor returns): the
  first \<open>N\<close> succeed, the last one throws the budget error, the sink (when
  configured) receives \<^verbatim>\<open>budget_exceeded\<close> last, and the counter is left at
  \<open>N + 1\<close> with the rest of the context unchanged. The counter never
  decreases across any invocation at all.
\<close>

theorem budget_ratchet:
  assumes fresh: "toolCalls (ctx s) = 0" and limit: "maxToolCalls (ctx s) = int N"
    and len: "length is = N" and q: "quiet (audit opts)"
    and ok: "\<forall>i\<in>set is. unobstructed opts (ctx s) i"
    and last: "redactable opts (inv_input extra)"
    and run: "run_calls opts (is @ [extra]) s = (rs, s')"
  shows "length rs = N + 1 \<and> (\<forall>k<N. succeeded (rs ! k)) \<and>
         rs ! N = Inl (JsError (tool_budget_reason (ctx s))) \<and>
         ctx s' = (ctx s)\<lparr>toolCalls := int N + 1\<rparr> \<and>
         (\<forall>f. audit opts = Some f \<longrightarrow>
            (\<exists>before. trace s' = before @
               [BudgetExceeded (tool_budget_reason (ctx s)) (requestId (ctx s)) (inv_now extra)])) \<and>
         (\<forall>opts' name ex now input t.
            toolCalls (ctx t) \<le> toolCalls (ctx (snd (guarded_execute opts' name ex now input t))))"
proof -
  from fresh limit len have "toolCalls (ctx s) + int (length is) \<le> maxToolCalls (ctx s)" by simp
  from run_calls_within_budget[OF q ok this] obtain rs1 s1 where
    1: "run_calls opts is s = (rs1, s1)" "length rs1 = length is" "list_all succeeded rs1"
       "ctx s1 = (ctx s)\<lparr>toolCalls := toolCalls (ctx s) + int (length is)\<rparr>"
    by blast
  with fresh limit len have over: "maxToolCalls (ctx s1) \<le> toolCalls (ctx s1)" by simp
  have c1: "tool_budget_reason (ctx s1) = tool_budget_reason (ctx s)" "requestId (ctx s1) = requestId (ctx s)"
    using 1 by (simp_all add: tool_budget_reason_def)
  from last obtain ri where red: "redacted opts (inv_input extra) = Inr ri"
    by (rule redactableE)
  note 2 = invoke_over_budget[OF q red over, unfolded c1]
  from run 1 2 have rs: "rs = rs1 @ [Inl (JsError (tool_budget_reason (ctx s)))]"
    and s': "s' = logged (audit opts)
        [ToolCallAttempted (inv_tool extra) ri (requestId (ctx s)) (inv_now extra),
         BudgetExceeded (tool_budget_reason (ctx s)) (requestId (ctx s)) (inv_now extra)]
        (s1\<lparr>ctx := bump (ctx s1)\<rparr>)"
    by (simp_all add: run_calls_append)
  have "length rs = N + 1" using rs 1 len by simp
  moreover have "\<forall>k<N. succeeded (rs ! k)"
    using rs 1 len by (simp add: nth_append list_all_length)
  moreover have "rs ! N = Inl (JsError (tool_budget_reason (ctx s)))"
    using rs 1 len by (simp add: nth_append)
  moreover have "ctx s' = (ctx s)\<lparr>toolCalls := int N + 1\<rparr>"
    using s' 1 fresh len by (simp add: bump_def)
  moreover have "\<forall>f. audit opts = Some f \<longrightarrow>
            (\<exists>before. trace s' = before @
               [BudgetExceeded (tool_budget_reason (ctx s)) (requestId (ctx s)) (inv_now extra)])"
    using s' by (auto simp: logged_def)
  ultimately show ?thesis using toolCalls_mono by blast
qed


definition one_call_state :: guard_state where
  "one_call_state =
     \<lparr> ctx = (createDefaultContext ''req-1'' 0)\<lparr>maxToolCalls := 1\<rparr>, trace = [], unhandled = [] \<rparr>"

definition first_call :: invocation where
  "first_call = \<lparr> inv_tool = ''search_docs'', inv_execute = search_docs, inv_now = 10,
                   inv_input = JObj [(''query'', JStr ''mcp'')] \<rparr>"

definition second_call :: invocation where
  "second_call = \<lparr> inv_tool = ''create_issue'', inv_execute = create_issue, inv_now = 20,
                    inv_input = JObj [(''title'', JStr ''bug'')] \<rparr>"

theorem budget_ratchet_witness:
  "succeeded (fst (run_calls (demo_opts (Some memory_sink)) [first_call, second_call] one_call_state) ! 0) \<and>
   fst (run_calls (demo_opts (Some memory_sink)) [first_call, second_call] one_call_state) ! 1
     = Inl (JsError ''Tool budget exceeded (maxToolCalls=1)'') \<and>
   toolCalls (ctx (snd (run_calls (demo_opts (Some memory_sink)) [first_call, second_call] one_call_state)))
     = 2 \<and>
   (\<exists>before. trace (snd (run_calls (demo_opts (Some memory_sink)) [first_call, second_call] one_call_state))
      = before @ [BudgetExceeded ''Tool budget exceeded (maxToolCalls=1)'' ''req-1'' 20])"
proof -
  let ?opts = "demo_opts (Some memory_sink)"
  let ?run = "run_calls ?opts ([first_call] @ [second_call]) one_call_state"
  have fresh: "toolCalls (ctx one_call_state) = 0"
    and limit: "maxToolCalls (ctx one_call_state) = int 1"
    and len: "length [first_call] = 1"
    by (simp_all add: one_call_state_def createDefaultContext_def)
  have q: "quiet (audit ?opts)" by (simp add: quiet_memory_sink)
  have ok: "\<forall>i\<in>set [first_call]. unobstructed ?opts (ctx one_call_state) i"
    by (simp add: unobstructed_def first_call_def demo_policy_decides demo_search_docs_allowed
        search_docs_def time_budget_exceeded_def one_call_state_def createDefaultContext_def
        timer_delay_def)
  have last: "redactable ?opts (inv_input second_call)" by simp
  have run: "?run = (fst ?run, snd ?run)" by simp
  have why: "tool_budget_reason (ctx one_call_state) = ''Tool budget exceeded (maxToolCalls=1)''"
    by code_simp
  have rid: "requestId (ctx one_call_state) = ''req-1''" "inv_now second_call = 20"
    by (simp_all add: one_call_state_def createDefaultContext_def second_call_def)
  from budget_ratchet[OF fresh limit len q ok last run] show ?thesis
    unfolding why rid by (simp add: quiet_memory_sink)
qed

section \<open>The per-call timeout\<close>






section \<open>Failing sinks\<close>







lemma redacted_audit [simp]: "redacted (opts\<lparr>audit := b\<rparr>) v = redacted opts v"
  by (simp add: redacted_def)
















section \<open>redaction.ts: the field redactor\<close>

text \<open>
  \<^verbatim>\<open>createFieldRedactor(fieldsToRedact, replacement)\<close>. The loop over
  \<^verbatim>\<open>Object.entries(value)\<close> assigns one property per entry, in order: the
  replacement when the lowered key is among the lowered field names, the
  redacted value otherwise.
\<close>

fun createFieldRedactor :: "string list \<Rightarrow> string \<Rightarrow> jvalue \<Rightarrow> jvalue" where
  "createFieldRedactor fieldsToRedact replacement (JArr items) =
     JArr (map (createFieldRedactor fieldsToRedact replacement) items)"
| "createFieldRedactor fieldsToRedact replacement (JObj entries) =
     JObj (assigned (map (\<lambda>kv.
        if toLowerCase (fst kv) \<in> set (map toLowerCase fieldsToRedact)
        then (fst kv, JStr replacement)
        else (fst kv, createFieldRedactor fieldsToRedact replacement (snd kv))) entries))"
| "createFieldRedactor fieldsToRedact replacement v = v"

datatype step = Key string | Index nat

fun get_step :: "jvalue \<Rightarrow> step \<Rightarrow> jvalue option" where
  "get_step (JObj entries) (Key k) = map_of entries k"
| "get_step (JArr items) (Index i) = (if i < length items then Some (items ! i) else None)"
| "get_step _ _ = None"

fun get_path :: "jvalue \<Rightarrow> step list \<Rightarrow> jvalue option" where
  "get_path v [] = Some v"
| "get_path v (st # p) = (case get_step v st of None \<Rightarrow> None | Some w \<Rightarrow> get_path w p)"

definition same_up_to_case :: "string \<Rightarrow> string \<Rightarrow> bool" where
  "same_up_to_case a b = (toLowerCase a = toLowerCase b)"

definition field_matches :: "string list \<Rightarrow> string \<Rightarrow> bool" where
  "field_matches fs k = list_ex (same_up_to_case k) fs"

text \<open>A step that the redactor passes through: an index, or a key that is kept.\<close>

fun unredacted_step :: "string list \<Rightarrow> step \<Rightarrow> bool" where
  "unredacted_step fs (Key k) = (\<not> field_matches fs k \<and> k \<noteq> ''__proto__'')"
| "unredacted_step fs (Index i) = True"

fun is_container :: "jvalue \<Rightarrow> bool" where
  "is_container (JArr _) = True"
| "is_container (JObj _) = True"
| "is_container _ = False"

definition login_input :: jvalue where
  "login_input =
     JObj [(''user'', JStr ''bob''), (''PassWord'', JStr ''hunter2''),
           (''nested'', JArr [JObj [(''APIKEY'', JObj [(''a'', JNum 1)]), (''n'', JNum 2)]])]"

text \<open>What \<^verbatim>\<open>JSON.parse\<close> makes of \<^verbatim>\<open>{"__proto__": {"admin": true}, "user": "bob"}\<close>.\<close>

definition proto_input :: jvalue where
  "proto_input = JObj [(''__proto__'', JObj [(''admin'', JBool True)]), (''user'', JStr ''bob'')]"

lemma field_matches_iff:
  "field_matches fs k \<longleftrightarrow> toLowerCase k \<in> set (map toLowerCase fs)"
  by (auto simp: field_matches_def same_up_to_case_def list_ex_iff)

lemma map_of_assigned:
  "map_of (assigned entries) k = (if k = ''__proto__'' then None else map_of entries k)"
  by (induction entries) (auto simp: assigned_def)

lemma map_of_redacted_entries:
  "map_of (map (\<lambda>kv. if toLowerCase (fst kv) \<in> toLowerCase ` set fs then (fst kv, JStr rep)
                     else (fst kv, createFieldRedactor fs rep (snd kv))) entries) k =
     map_option (\<lambda>w. if toLowerCase k \<in> toLowerCase ` set fs then JStr rep
                       else createFieldRedactor fs rep w) (map_of entries k)"
  by (induction entries) auto

lemma get_step_redacted:
  "st \<noteq> Key ''__proto__'' \<Longrightarrow>
   get_step (createFieldRedactor fs rep v) st =
     map_option (\<lambda>w. case st of Key k \<Rightarrow> if field_matches fs k then JStr rep
                                       else createFieldRedactor fs rep w
                     | Index i \<Rightarrow> createFieldRedactor fs rep w)
       (get_step v st)"
  by (cases v; cases st)
     (simp_all add: map_of_assigned map_of_redacted_entries field_matches_iff)

lemma get_path_unredacted:
  "list_all (unredacted_step fs) p \<Longrightarrow>
   get_path (createFieldRedactor fs rep v) p =
     map_option (createFieldRedactor fs rep) (get_path v p)"
proof (induction p arbitrary: v)
  case Nil
  then show ?case by simp
next
  case (Cons st p)
  from Cons.prems have ne: "st \<noteq> Key ''__proto__''" by auto
  show ?case
  proof (cases "get_step v st")
    case None
    with ne show ?thesis by (simp add: get_step_redacted)
  next
    case (Some w)
    with Cons ne show ?thesis
      by (cases st) (simp_all add: get_step_redacted)
  qed
qed

lemma get_path_append:
  "get_path v (p @ q) = (case get_path v p of None \<Rightarrow> None | Some w \<Rightarrow> get_path w q)"
  by (induction p arbitrary: v) (simp_all split: option.splits)

lemma get_path_redacted_field:
  assumes "list_all (unredacted_step fs) p" and "field_matches fs k" and "k \<noteq> ''__proto__''"
    and "get_path v (p @ [Key k]) = Some x"
  shows "get_path (createFieldRedactor fs rep v) (p @ [Key k]) = Some (JStr rep)"
proof -
  from assms(4) obtain w where w: "get_path v p = Some w" "get_step w (Key k) = Some x"
    by (auto simp: get_path_append split: option.splits)
  with assms(1,2,3) show ?thesis
    by (simp add: get_path_append get_path_unredacted get_step_redacted)
qed

text \<open>
  Away from the key \<^verbatim>\<open>__proto__\<close> the redactor redacts by field name. Along
  any path of indices and of keys that neither match a configured field name
  nor are \<^verbatim>\<open>__proto__\<close>, the redacted value holds the redaction of what the
  original holds there: siblings keep their place and are recursed into, at
  every depth. A key other than \<^verbatim>\<open>__proto__\<close> that such a path reaches and that
  equals a configured name up to letter case holds the replacement token
  itself. An object keeps its keys other than \<^verbatim>\<open>__proto__\<close> in order, an array
  its length, and a value that is neither is returned unchanged.
\<close>

lemma field_redaction_elsewhere:
  "(list_all (unredacted_step fs) p \<longrightarrow>
      get_path (createFieldRedactor fs rep v) p =
        map_option (createFieldRedactor fs rep) (get_path v p)) \<and>
   (list_all (unredacted_step fs) p \<and> field_matches fs k \<and> k \<noteq> ''__proto__'' \<and>
      get_path v (p @ [Key k]) \<noteq> None \<longrightarrow>
      get_path (createFieldRedactor fs rep v) (p @ [Key k]) = Some (JStr rep)) \<and>
   (\<forall>entries. v = JObj entries \<longrightarrow>
      (\<exists>entries'. createFieldRedactor fs rep v = JObj entries' \<and>
         map fst entries' = filter (\<lambda>k. k \<noteq> ''__proto__'') (map fst entries))) \<and>
   (\<forall>items. v = JArr items \<longrightarrow>
      (\<exists>items'. createFieldRedactor fs rep v = JArr items' \<and> length items' = length items)) \<and>
   (\<not> is_container v \<longrightarrow> createFieldRedactor fs rep v = v)"
proof (intro conjI)
  show "list_all (unredacted_step fs) p \<longrightarrow>
      get_path (createFieldRedactor fs rep v) p =
        map_option (createFieldRedactor fs rep) (get_path v p)"
    by (simp add: get_path_unredacted)
  show "list_all (unredacted_step fs) p \<and> field_matches fs k \<and> k \<noteq> ''__proto__'' \<and>
      get_path v (p @ [Key k]) \<noteq> None \<longrightarrow>
      get_path (createFieldRedactor fs rep v) (p @ [Key k]) = Some (JStr rep)"
    using get_path_redacted_field[of fs p k v _ rep] by auto
  show "\<forall>entries. v = JObj entries \<longrightarrow>
      (\<exists>entries'. createFieldRedactor fs rep v = JObj entries' \<and>
         map fst entries' = filter (\<lambda>k. k \<noteq> ''__proto__'') (map fst entries))"
  proof (intro allI impI)
    fix entries
    assume "v = JObj entries"
    moreover have "map fst (assigned (map (\<lambda>kv.
          if toLowerCase (fst kv) \<in> set (map toLowerCase fs) then (fst kv, JStr rep)
          else (fst kv, createFieldRedactor fs rep (snd kv))) entries))
        = filter (\<lambda>k. k \<noteq> ''__proto__'') (map fst entries)"
      by (induction entries) (simp_all add: assigned_def)
    ultimately show "\<exists>entries'. createFieldRedactor fs rep v = JObj entries' \<and>
         map fst entries' = filter (\<lambda>k. k \<noteq> ''__proto__'') (map fst entries)"
      by simp
  qed
  show "\<forall>items. v = JArr items \<longrightarrow>
      (\<exists>items'. createFieldRedactor fs rep v = JArr items' \<and> length items' = length items)"
    by simp
  show "\<not> is_container v \<longrightarrow> createFieldRedactor fs rep v = v"
    by (cases v) simp_all
qed

lemma field_redaction_example:
  "get_path (createFieldRedactor [''password'', ''apiKey''] ''[REDACTED]'' login_input)
      ([Key ''nested'', Index 0] @ [Key ''APIKEY'']) = Some (JStr ''[REDACTED]'') \<and>
   get_path (createFieldRedactor [''password'', ''apiKey''] ''[REDACTED]'' login_input)
      [Key ''nested'', Index 0, Key ''n''] = Some (JNum 2)"
proof -
  have clear: "list_all (unredacted_step [''password'', ''apiKey'']) [Key ''nested'', Index 0]"
    and clear': "list_all (unredacted_step [''password'', ''apiKey'']) [Key ''nested'', Index 0, Key ''n'']"
    and hit: "field_matches [''password'', ''apiKey''] ''APIKEY''"
    and there: "get_path login_input ([Key ''nested'', Index 0] @ [Key ''APIKEY'']) \<noteq> None"
    and sibling: "get_path login_input [Key ''nested'', Index 0, Key ''n''] = Some (JNum 2)"
    by code_simp+
  from field_redaction_elsewhere[of "[''password'', ''apiKey'']" "[Key ''nested'', Index 0]"
      "''[REDACTED]''" login_input "''APIKEY''"] clear hit there
  have "get_path (createFieldRedactor [''password'', ''apiKey''] ''[REDACTED]'' login_input)
      ([Key ''nested'', Index 0] @ [Key ''APIKEY'']) = Some (JStr ''[REDACTED]'')"
    by simp
  moreover from field_redaction_elsewhere[of "[''password'', ''apiKey'']" "[Key ''nested'', Index 0, Key ''n'']"
      "''[REDACTED]''" login_input "''x''"] clear' sibling
  have "get_path (createFieldRedactor [''password'', ''apiKey''] ''[REDACTED]'' login_input)
      [Key ''nested'', Index 0, Key ''n''] = Some (JNum 2)"
    by simp
  ultimately show ?thesis by simp
qed

text \<open>
  Claim C9 fails on the code at an object that has the key \<^verbatim>\<open>__proto__\<close>. When
  no configured field name matches it, it is a sibling that the claim wants
  preserved, and the redacted object has lost it; when it is itself a
  configured field name, the claim wants the token in its place, and the
  redacted object has neither the key nor the token.
\<close>

theorem field_redactor_loses_proto:
  "createFieldRedactor [''password''] ''[REDACTED]'' proto_input = JObj [(''user'', JStr ''bob'')] \<and>
   get_path proto_input [Key ''__proto__''] = Some (JObj [(''admin'', JBool True)]) \<and>
   \<not> field_matches [''password''] ''__proto__'' \<and>
   get_path (createFieldRedactor [''password''] ''[REDACTED]'' proto_input) [Key ''__proto__''] = None \<and>
   field_matches [''__PROTO__''] ''__proto__'' \<and>
   createFieldRedactor [''__PROTO__''] ''[REDACTED]'' proto_input = JObj [(''user'', JStr ''bob'')]"
  by code_simp

section \<open>redaction.ts: the pattern redactor\<close>

text \<open>
  The regular expressions of the default patterns: literals, character
  classes (unions of ranges of code units), \<^verbatim>\<open>\b\<close>, concatenation and greedy
  bounded or unbounded repetition. A capture group that is never referred to
  matches as its body does. None of the patterns has a flag besides \<^verbatim>\<open>g\<close>.
\<close>

datatype regex =
    Eps
  | Lit char
  | Class "(char \<times> char) list"
  | Boundary
  | Seq regex regex
  | Repeat regex nat "nat option"

text \<open>
  A position in the subject string: the character before it, if any, and the
  text from it on. \<^verbatim>\<open>\b\<close> holds where exactly one of the two neighbours is a
  word character; there is no neighbour outside the string.
\<close>

type_synonym cursor = "char option \<times> string"

definition in_class :: "(char \<times> char) list \<Rightarrow> char \<Rightarrow> bool" where
  "in_class ranges c =
     list_ex (\<lambda>r. (of_char (fst r) :: nat) \<le> of_char c \<and> (of_char c :: nat) \<le> of_char (snd r)) ranges"

definition is_word_char :: "char \<Rightarrow> bool" where
  "is_word_char c =
     in_class [(CHR ''a'', CHR ''z''), (CHR ''A'', CHR ''Z''), (CHR ''0'', CHR ''9''), (CHR ''_'', CHR ''_'')] c"

fun word_before :: "char option \<Rightarrow> bool" where
  "word_before None = False"
| "word_before (Some c) = is_word_char c"

fun word_after :: "string \<Rightarrow> bool" where
  "word_after [] = False"
| "word_after (c # _) = is_word_char c"

definition at_boundary :: "cursor \<Rightarrow> bool" where
  "at_boundary cur = (word_before (fst cur) \<noteq> word_after (snd cur))"

text \<open>
  The backtracking matcher: \<open>matches r cur\<close> lists the positions at which a
  match of \<open>r\<close> that starts at \<open>cur\<close> can end, in the order in which the
  engine tries them. A greedy quantifier first makes its required iterations,
  then tries one more iteration before it tries to stop; an optional
  iteration that consumes nothing is dropped.
\<close>

fun take_char :: "(char \<Rightarrow> bool) \<Rightarrow> cursor \<Rightarrow> cursor list" where
  "take_char P (p, []) = []"
| "take_char P (p, c # cs) = (if P c then [(Some c, cs)] else [])"

fun exactly :: "(cursor \<Rightarrow> cursor list) \<Rightarrow> nat \<Rightarrow> cursor \<Rightarrow> cursor list" where
  "exactly step 0 cur = [cur]"
| "exactly step (Suc n) cur = concat (map (exactly step n) (step cur))"

fun fewer :: "nat option \<Rightarrow> nat option" where
  "fewer None = None"
| "fewer (Some n) = Some (n - 1)"

function at_most :: "(cursor \<Rightarrow> cursor list) \<Rightarrow> nat option \<Rightarrow> cursor \<Rightarrow> cursor list" where
  "at_most step limit cur =
     (if limit = Some 0 then [cur]
      else concat (map (at_most step (fewer limit))
                    (filter (\<lambda>c. length (snd c) < length (snd cur)) (step cur))) @ [cur])"
  by pat_completeness auto
termination
  by (relation "measure (\<lambda>(step, limit, cur). length (snd cur))") auto

declare at_most.simps [simp del]

primrec matches :: "regex \<Rightarrow> cursor \<Rightarrow> cursor list" where
  "matches Eps = (\<lambda>cur. [cur])"
| "matches (Lit c) = take_char (\<lambda>d. d = c)"
| "matches (Class ranges) = take_char (in_class ranges)"
| "matches Boundary = (\<lambda>cur. if at_boundary cur then [cur] else [])"
| "matches (Seq a b) = (\<lambda>cur. concat (map (matches b) (matches a cur)))"
| "matches (Repeat r lo hi) =
     (\<lambda>cur. concat (map (at_most (matches r) (map_option (\<lambda>h. h - lo) hi)) (exactly (matches r) lo cur)))"

text \<open>
  \<^verbatim>\<open>String.prototype.replace\<close> with a global pattern and a replacement free of
  \<^verbatim>\<open>$\<close>: at each position the first match, if any, is replaced and the scan
  goes on behind it; without a match the character is copied. After an empty
  match the next character is copied.
\<close>

function replace_from :: "regex \<Rightarrow> string \<Rightarrow> cursor \<Rightarrow> string" where
  "replace_from r replacement cur =
     (case matches r cur of
        [] \<Rightarrow> (case snd cur of [] \<Rightarrow> [] | c # cs \<Rightarrow> c # replace_from r replacement (Some c, cs))
      | m # _ \<Rightarrow>
          if length (snd m) < length (snd cur)
          then replacement @ replace_from r replacement m
          else replacement @
               (case snd cur of [] \<Rightarrow> [] | c # cs \<Rightarrow> c # replace_from r replacement (Some c, cs)))"
  by pat_completeness auto
termination
  by (relation "measure (\<lambda>(r, replacement, cur). length (snd cur))") auto

declare replace_from.simps [simp del]

definition replace_all :: "regex \<Rightarrow> string \<Rightarrow> string \<Rightarrow> string" where
  "replace_all r replacement s = replace_from r replacement (None, s)"

text \<open>The patterns of \<^verbatim>\<open>DEFAULT_SECRET_PATTERNS\<close> and \<^verbatim>\<open>DEFAULT_PII_PATTERNS\<close>.\<close>

fun lits :: "string \<Rightarrow> regex" where
  "lits [] = Eps"
| "lits [c] = Lit c"
| "lits (c # cs) = Seq (Lit c) (lits cs)"

fun seqs :: "regex list \<Rightarrow> regex" where
  "seqs [] = Eps"
| "seqs [r] = r"
| "seqs (r # rs) = Seq r (seqs rs)"

definition rx_alnum :: regex where
  "rx_alnum = Class [(CHR ''a'', CHR ''z''), (CHR ''A'', CHR ''Z''), (CHR ''0'', CHR ''9'')]"

definition rx_token_char :: regex where
  "rx_token_char = Class [(CHR ''a'', CHR ''z''), (CHR ''A'', CHR ''Z''), (CHR ''0'', CHR ''9''),
                       (CHR ''_'', CHR ''_''), (CHR ''-'', CHR ''-'')]"

definition rx_digit :: regex where
  "rx_digit = Class [(CHR ''0'', CHR ''9'')]"

definition rx_space :: regex where
  "rx_space = Class [(CHR 0x09, CHR 0x0D), (CHR '' '', CHR '' ''), (CHR 0xA0, CHR 0xA0)]"

definition DEFAULT_SECRET_PATTERNS :: "regex list" where
  "DEFAULT_SECRET_PATTERNS =
     [seqs [Boundary, lits ''sk-'', Repeat rx_alnum 48 (Some 48), Boundary],
      seqs [Boundary, lits ''sk_live_'', Repeat rx_alnum 24 None, Boundary],
      seqs [Boundary, lits ''sk_test_'', Repeat rx_alnum 24 None, Boundary],
      seqs [Boundary, Repeat rx_token_char 40 (Some 40), Boundary],
      seqs [Boundary, lits ''ghp_'', Repeat rx_alnum 36 (Some 36), Boundary],
      seqs [Boundary, lits ''gho_'', Repeat rx_alnum 36 (Some 36), Boundary],
      seqs [Boundary, lits ''AKIA'', Repeat (Class [(CHR ''0'', CHR ''9''), (CHR ''A'', CHR ''Z'')]) 16 (Some 16),
            Boundary],
      seqs [lits ''-----BEGIN'', Repeat rx_space 1 None,
            Repeat (seqs [lits ''RSA'', Repeat rx_space 1 None]) 0 (Some 1),
            lits ''PRIVATE'', Repeat rx_space 1 None, lits ''KEY-----''],
      seqs [Boundary, Repeat rx_token_char 32 None, Boundary]]"

definition DEFAULT_PII_PATTERNS :: "regex list" where
  "DEFAULT_PII_PATTERNS =
     [seqs [Boundary, Repeat rx_digit 3 (Some 3), Lit CHR ''-'', Repeat rx_digit 2 (Some 2), Lit CHR ''-'',
            Repeat rx_digit 4 (Some 4), Boundary],
      seqs [Boundary, Repeat rx_digit 16 (Some 16), Boundary],
      seqs [Boundary,
            Repeat (Class [(CHR ''A'', CHR ''Z''), (CHR ''a'', CHR ''z''), (CHR ''0'', CHR ''9''),
                           (CHR ''.'', CHR ''.''), (CHR ''_'', CHR ''_''), (CHR ''%'', CHR ''%''),
                           (CHR ''+'', CHR ''+''), (CHR ''-'', CHR ''-'')]) 1 None,
            Lit CHR ''@'',
            Repeat (Class [(CHR ''A'', CHR ''Z''), (CHR ''a'', CHR ''z''), (CHR ''0'', CHR ''9''),
                           (CHR ''.'', CHR ''.''), (CHR ''-'', CHR ''-'')]) 1 None,
            Lit CHR ''.'',
            Repeat (Class [(CHR ''A'', CHR ''Z''), (CHR ''|'', CHR ''|''), (CHR ''a'', CHR ''z'')]) 2 None,
            Boundary]]"

definition redact_string :: "regex list \<Rightarrow> string \<Rightarrow> string \<Rightarrow> string" where
  "redact_string patterns replacement value =
     foldl (\<lambda>redacted pattern. replace_all pattern replacement redacted) value patterns"

fun createRegexRedactor :: "regex list \<Rightarrow> string \<Rightarrow> jvalue \<Rightarrow> jvalue" where
  "createRegexRedactor patterns replacement (JStr s) = JStr (redact_string patterns replacement s)"
| "createRegexRedactor patterns replacement (JArr items) =
     JArr (map (createRegexRedactor patterns replacement) items)"
| "createRegexRedactor patterns replacement (JObj entries) =
     JObj (assigned (map (\<lambda>kv. (fst kv, createRegexRedactor patterns replacement (snd kv))) entries))"
| "createRegexRedactor patterns replacement v = v"

definition createDefaultRedactor :: "jvalue \<Rightarrow> jvalue" where
  "createDefaultRedactor =
     createRegexRedactor (DEFAULT_SECRET_PATTERNS @ DEFAULT_PII_PATTERNS) ''[REDACTED]''"


subsection \<open>What a match consumes\<close>

fun last_or :: "char option \<Rightarrow> string \<Rightarrow> char option" where
  "last_or p [] = p"
| "last_or p (c # cs) = last_or (Some c) cs"

definition consumed :: "cursor \<Rightarrow> string \<Rightarrow> cursor \<Rightarrow> bool" where
  "consumed cur u cur' = (snd cur = u @ snd cur' \<and> fst cur' = last_or (fst cur) u)"

fun avoids :: "regex \<Rightarrow> char \<Rightarrow> bool" where
  "avoids Eps b = True"
| "avoids (Lit c) b = (c \<noteq> b)"
| "avoids (Class ranges) b = (\<not> in_class ranges b)"
| "avoids Boundary b = True"
| "avoids (Seq r s) b = (avoids r b \<and> avoids s b)"
| "avoids (Repeat r lo hi) b = avoids r b"

fun minlen :: "regex \<Rightarrow> nat" where
  "minlen Eps = 0"
| "minlen (Lit c) = 1"
| "minlen (Class ranges) = 1"
| "minlen Boundary = 0"
| "minlen (Seq r s) = minlen r + minlen s"
| "minlen (Repeat r lo hi) = lo * minlen r"

definition sound :: "(cursor \<Rightarrow> cursor list) \<Rightarrow> nat \<Rightarrow> char set \<Rightarrow> bool" where
  "sound step n B =
     (\<forall>cur cur'. cur' \<in> set (step cur) \<longrightarrow>
        (\<exists>u. consumed cur u cur' \<and> n \<le> length u \<and> set u \<inter> B = {}))"

lemma last_or_append [simp]: "last_or p (u @ v) = last_or (last_or p u) v"
  by (induction u arbitrary: p) simp_all

lemma consumed_refl [simp]: "consumed cur [] cur"
  by (simp add: consumed_def)

lemma consumed_trans:
  "consumed c u c' \<Longrightarrow> consumed c' v c'' \<Longrightarrow> consumed c (u @ v) c''"
  by (simp add: consumed_def)

lemma consumed_length: "consumed c u c' \<Longrightarrow> length (snd c) = length u + length (snd c')"
  by (simp add: consumed_def)

lemma soundD:
  "sound step n B \<Longrightarrow> cur' \<in> set (step cur) \<Longrightarrow>
   \<exists>u. consumed cur u cur' \<and> n \<le> length u \<and> set u \<inter> B = {}"
  unfolding sound_def by blast

lemma sound_length:
  "sound step n B \<Longrightarrow> cur' \<in> set (step cur) \<Longrightarrow> length (snd cur') + n \<le> length (snd cur)"
  by (auto dest!: soundD consumed_length)

lemma sound_weaken: "sound step n B \<Longrightarrow> m \<le> n \<Longrightarrow> B' \<subseteq> B \<Longrightarrow> sound step m B'"
  unfolding sound_def by (meson disjoint_iff le_trans subsetD)

lemma sound_take_char: "sound (take_char P) 1 {b. \<not> P b}"
  unfolding sound_def
proof (intro allI impI)
  fix cur cur' :: cursor
  assume "cur' \<in> set (take_char P cur)"
  then obtain p c cs where "cur = (p, c # cs)" "P c" "cur' = (Some c, cs)"
    by (cases cur; cases "snd cur") (auto split: if_splits)
  then have "consumed cur [c] cur' \<and> 1 \<le> length [c] \<and> set [c] \<inter> {b. \<not> P b} = {}"
    by (simp add: consumed_def)
  then show "\<exists>u. consumed cur u cur' \<and> 1 \<le> length u \<and> set u \<inter> {b. \<not> P b} = {}"
    by blast
qed

lemma sound_then:
  assumes f: "sound f m B" and g: "sound g n B"
  shows "sound (\<lambda>cur. concat (map g (f cur))) (m + n) B"
  unfolding sound_def
proof (intro allI impI)
  fix cur cur'
  assume "cur' \<in> set (concat (map g (f cur)))"
  then obtain mid where mid: "mid \<in> set (f cur)" "cur' \<in> set (g mid)" by auto
  from soundD[OF f mid(1)] obtain u where u: "consumed cur u mid" "m \<le> length u" "set u \<inter> B = {}"
    by blast
  from soundD[OF g mid(2)] obtain v where v: "consumed mid v cur'" "n \<le> length v" "set v \<inter> B = {}"
    by blast
  from u v have "consumed cur (u @ v) cur' \<and> m + n \<le> length (u @ v) \<and> set (u @ v) \<inter> B = {}"
    by (auto simp: consumed_trans)
  then show "\<exists>u. consumed cur u cur' \<and> m + n \<le> length u \<and> set u \<inter> B = {}" by blast
qed

lemma sound_skip: "sound (\<lambda>cur. [cur]) 0 B"
  unfolding sound_def by (auto intro: exI[of _ "[]"])

lemma sound_exactly:
  assumes "sound step m B"
  shows "sound (exactly step n) (n * m) B"
proof (induction n)
  case 0
  have "exactly step 0 = (\<lambda>cur. [cur])" by (rule ext) simp
  then show ?case by (simp add: sound_skip)
next
  case (Suc n)
  have "exactly step (Suc n) = (\<lambda>cur. concat (map (exactly step n) (step cur)))" by (rule ext) simp
  with sound_then[OF assms Suc] show ?case by (simp add: add.commute)
qed

lemma at_most_consumed:
  "cur' \<in> set (at_most step limit cur) \<Longrightarrow> sound step m B \<Longrightarrow>
   \<exists>u. consumed cur u cur' \<and> set u \<inter> B = {}"
proof (induction step limit cur rule: at_most.induct)
  case (1 step limit cur)
  show ?case
  proof (cases "cur' = cur")
    case True
    then show ?thesis by (auto intro: exI[of _ "[]"])
  next
    case False
    with "1.prems"(1) have ne: "limit \<noteq> Some 0"
      and "cur' \<in> set (concat (map (at_most step (fewer limit))
             (filter (\<lambda>c. length (snd c) < length (snd cur)) (step cur))))"
      by (auto simp: at_most.simps[of step limit cur] split: if_splits)
    then obtain mid where mid: "mid \<in> set (step cur)" "length (snd mid) < length (snd cur)"
        "cur' \<in> set (at_most step (fewer limit) mid)"
      by auto
    from "1.IH"[OF ne _ mid(3) "1.prems"(2)] mid
    obtain v where v: "consumed mid v cur'" "set v \<inter> B = {}" by auto
    from soundD[OF "1.prems"(2) mid(1)] obtain u where u: "consumed cur u mid" "set u \<inter> B = {}"
      by blast
    from u v have "consumed cur (u @ v) cur' \<and> set (u @ v) \<inter> B = {}"
      by (auto simp: consumed_trans)
    then show ?thesis by blast
  qed
qed

lemma sound_at_most: "sound step m B \<Longrightarrow> sound (at_most step limit) 0 B"
  unfolding sound_def[of "at_most step limit"] by (auto dest: at_most_consumed)

lemma sound_matches: "sound (matches r) (minlen r) {b. avoids r b}"
proof (induction r)
  case Eps
  then show ?case by (simp add: sound_skip)
next
  case (Lit c)
  have "{b. c \<noteq> b} = {b. \<not> b = c}" by auto
  with sound_take_char[of "\<lambda>d. d = c"] show ?case by simp
next
  case (Class ranges)
  with sound_take_char[of "in_class ranges"] show ?case by simp
next
  case Boundary
  show ?case unfolding sound_def by (auto intro: exI[of _ "[]"])
next
  case (Seq a b)
  have "sound (matches a) (minlen a) {c. avoids (Seq a b) c}"
    and "sound (matches b) (minlen b) {c. avoids (Seq a b) c}"
    using Seq by (auto elim: sound_weaken)
  from sound_then[OF this] show ?case by simp
next
  case (Repeat r lo hi)
  have "sound (exactly (matches r) lo) (lo * minlen r) {b. avoids r b}"
    using Repeat by (rule sound_exactly)
  moreover have "sound (at_most (matches r) (map_option (\<lambda>h. h - lo) hi)) 0 {b. avoids r b}"
    using Repeat by (rule sound_at_most)
  ultimately show ?case
    using sound_then[of "exactly (matches r) lo" "lo * minlen r" "{b. avoids r b}"
        "at_most (matches r) (map_option (\<lambda>h. h - lo) hi)" 0]
    by simp
qed


subsection \<open>A match depends on its text and on the boundaries at its ends\<close>

text \<open>
  Two subject strings that share the segment \<open>w\<close>: \<open>ctxt p x w k\<close> is the
  position \<open>k\<close> of the segment when \<open>p\<close> precedes it and \<open>x\<close> follows it.
\<close>

definition ctxt :: "char option \<Rightarrow> string \<Rightarrow> string \<Rightarrow> nat \<Rightarrow> cursor" where
  "ctxt p x w k = (last_or p (take k w), drop k w @ x)"

definition compat :: "char option \<Rightarrow> string \<Rightarrow> char option \<Rightarrow> string \<Rightarrow> string \<Rightarrow> bool" where
  "compat pA xA pB xB w =
     (\<forall>k\<le>length w. at_boundary (ctxt pA xA w k) \<longrightarrow> at_boundary (ctxt pB xB w k))"

definition simulates ::
  "char option \<Rightarrow> string \<Rightarrow> char option \<Rightarrow> string \<Rightarrow> string \<Rightarrow> (cursor \<Rightarrow> cursor list) \<Rightarrow> bool" where
  "simulates pA xA pB xB w step =
     (\<forall>i c'. i \<le> length w \<longrightarrow> c' \<in> set (step (ctxt pA xA w i)) \<longrightarrow> length xA \<le> length (snd c') \<longrightarrow>
        (\<exists>j. i \<le> j \<and> j \<le> length w \<and> c' = ctxt pA xA w j \<and>
             ctxt pB xB w j \<in> set (step (ctxt pB xB w i))))"

lemma simulatesD:
  "simulates pA xA pB xB w step \<Longrightarrow> i \<le> length w \<Longrightarrow> c' \<in> set (step (ctxt pA xA w i)) \<Longrightarrow>
   length xA \<le> length (snd c') \<Longrightarrow>
   \<exists>j. i \<le> j \<and> j \<le> length w \<and> c' = ctxt pA xA w j \<and> ctxt pB xB w j \<in> set (step (ctxt pB xB w i))"
  unfolding simulates_def by blast

lemma length_ctxt [simp]: "length (snd (ctxt p x w k)) = length w - k + length x"
  by (simp add: ctxt_def)

lemma last_or_take_Suc: "i < length w \<Longrightarrow> last_or p (take (Suc i) w) = Some (w ! i)"
  by (simp add: take_Suc_conv_app_nth)

lemma ctxt_step:
  "i < length w \<Longrightarrow> ctxt p x w i = (last_or p (take i w), w ! i # drop (Suc i) w @ x)"
  by (simp add: ctxt_def Cons_nth_drop_Suc)

lemma ctxt_Suc: "i < length w \<Longrightarrow> ctxt p x w (Suc i) = (Some (w ! i), drop (Suc i) w @ x)"
  by (simp add: ctxt_def last_or_take_Suc)

lemma consumed_ctxt:
  assumes c: "consumed (ctxt p x w i) u c'" and i: "i \<le> length w" and x: "length x \<le> length (snd c')"
  shows "c' = ctxt p x w (i + length u) \<and> i + length u \<le> length w"
proof -
  from c have eq: "drop i w @ x = u @ snd c'" and f: "fst c' = last_or (last_or p (take i w)) u"
    by (simp_all add: consumed_def ctxt_def)
  from eq have "length w - i + length x = length u + length (snd c')"
    by (metis length_append length_drop)
  with x i have le: "length u \<le> length w - i" by simp
  with eq have u: "u = take (length u) (drop i w)"
    by (metis append_eq_append_conv_if append_eq_conv_conj length_drop)
  with eq le have r: "snd c' = drop (length u) (drop i w) @ x"
    by (metis append_eq_conv_conj append_take_drop_id append_assoc)
  have "take (i + length u) w = take i w @ take (length u) (drop i w)"
    by (simp add: take_add)
  with u have t: "take (i + length u) w = take i w @ u" by simp
  from f r t le i show ?thesis
    by (cases c') (simp add: ctxt_def add.commute)
qed

lemma simulates_skip: "simulates pA xA pB xB w (\<lambda>cur. [cur])"
  unfolding simulates_def by auto

lemma simulates_boundary:
  "compat pA xA pB xB w \<Longrightarrow>
   simulates pA xA pB xB w (\<lambda>cur. if at_boundary cur then [cur] else [])"
  unfolding simulates_def compat_def by (auto split: if_splits)

lemma simulates_take_char: "simulates pA xA pB xB w (take_char P)"
  unfolding simulates_def
proof (intro allI impI)
  fix i c'
  assume i: "i \<le> length w" and c': "c' \<in> set (take_char P (ctxt pA xA w i))"
    and len: "length xA \<le> length (snd c')"
  from sound_length[OF sound_take_char c'] len have "i < length w" by simp
  with c' have "P (w ! i)" "c' = ctxt pA xA w (Suc i)"
    by (auto simp: ctxt_step ctxt_Suc split: if_splits)
  moreover from \<open>i < length w\<close> \<open>P (w ! i)\<close>
  have "ctxt pB xB w (Suc i) \<in> set (take_char P (ctxt pB xB w i))"
    by (simp add: ctxt_step ctxt_Suc)
  ultimately show "\<exists>j\<ge>i. j \<le> length w \<and> c' = ctxt pA xA w j \<and>
      ctxt pB xB w j \<in> set (take_char P (ctxt pB xB w i))"
    using \<open>i < length w\<close> by (intro exI[of _ "Suc i"]) simp
qed

lemma simulates_then:
  assumes f: "simulates pA xA pB xB w f" and g: "simulates pA xA pB xB w g"
    and sg: "sound g n B"
  shows "simulates pA xA pB xB w (\<lambda>cur. concat (map g (f cur)))"
  unfolding simulates_def
proof (intro allI impI)
  fix i c'
  assume i: "i \<le> length w" and c': "c' \<in> set (concat (map g (f (ctxt pA xA w i))))"
    and len: "length xA \<le> length (snd c')"
  from c' obtain mid where mid: "mid \<in> set (f (ctxt pA xA w i))" "c' \<in> set (g mid)" by auto
  from sound_length[OF sg mid(2)] len have "length xA \<le> length (snd mid)" by simp
  from simulatesD[OF f i mid(1) this] obtain m where
    m: "i \<le> m" "m \<le> length w" "mid = ctxt pA xA w m" "ctxt pB xB w m \<in> set (f (ctxt pB xB w i))"
    by blast
  from simulatesD[OF g m(2) mid(2)[unfolded m(3)] len] obtain j where
    j: "m \<le> j" "j \<le> length w" "c' = ctxt pA xA w j" "ctxt pB xB w j \<in> set (g (ctxt pB xB w m))"
    by blast
  from m j show "\<exists>j\<ge>i. j \<le> length w \<and> c' = ctxt pA xA w j \<and>
      ctxt pB xB w j \<in> set (concat (map g (f (ctxt pB xB w i))))"
    by (intro exI[of _ j]) auto
qed

lemma simulates_exactly:
  assumes st: "simulates pA xA pB xB w step" and so: "sound step m B"
  shows "simulates pA xA pB xB w (exactly step n)"
proof (induction n)
  case 0
  have "exactly step 0 = (\<lambda>cur. [cur])" by (rule ext) simp
  then show ?case by (simp add: simulates_skip)
next
  case (Suc n)
  have "exactly step (Suc n) = (\<lambda>cur. concat (map (exactly step n) (step cur)))" by (rule ext) simp
  with simulates_then[OF st Suc sound_exactly[OF so]] show ?case by simp
qed

lemma at_most_self: "cur \<in> set (at_most step limit cur)"
  by (subst at_most.simps) simp

lemma at_most_more:
  "limit \<noteq> Some 0 \<Longrightarrow> mid \<in> set (step cur) \<Longrightarrow> length (snd mid) < length (snd cur) \<Longrightarrow>
   c \<in> set (at_most step (fewer limit) mid) \<Longrightarrow> c \<in> set (at_most step limit cur)"
  by (subst at_most.simps, cases mid) force

lemma simulates_at_most:
  assumes st: "simulates pA xA pB xB w step" and so: "sound step m B"
  shows "simulates pA xA pB xB w (at_most step limit)"
proof -
  have "i \<le> length w \<Longrightarrow> c' \<in> set (at_most step limit (ctxt pA xA w i)) \<Longrightarrow>
        length xA \<le> length (snd c') \<Longrightarrow>
        \<exists>j\<ge>i. j \<le> length w \<and> c' = ctxt pA xA w j \<and>
          ctxt pB xB w j \<in> set (at_most step limit (ctxt pB xB w i))" for i c' limit
  proof (induction "length w - i" arbitrary: i limit rule: less_induct)
    case less
    show ?case
    proof (cases "c' = ctxt pA xA w i")
      case True
      have "ctxt pB xB w i \<in> set (at_most step limit (ctxt pB xB w i))"
        by (rule at_most_self)
      with True less.prems(1) show ?thesis by (intro exI[of _ i]) simp
    next
      case False
      with less.prems(2) have ne: "limit \<noteq> Some 0"
        and "c' \<in> set (concat (map (at_most step (fewer limit))
               (filter (\<lambda>c. length (snd c) < length (snd (ctxt pA xA w i))) (step (ctxt pA xA w i)))))"
        by (auto simp: at_most.simps[of step limit "ctxt pA xA w i"] split: if_splits)
      then obtain mid where mid: "mid \<in> set (step (ctxt pA xA w i))"
          "length (snd mid) < length (snd (ctxt pA xA w i))"
          "c' \<in> set (at_most step (fewer limit) mid)"
        by auto
      from sound_length[OF sound_at_most[OF so] mid(3)] less.prems(3)
      have "length xA \<le> length (snd mid)" by simp
      from simulatesD[OF st less.prems(1) mid(1) this] obtain m where
        m: "i \<le> m" "m \<le> length w" "mid = ctxt pA xA w m" "ctxt pB xB w m \<in> set (step (ctxt pB xB w i))"
        by blast
      from mid(2) m have im: "i < m" by simp
      with m have "length w - m < length w - i" by simp
      from less.hyps[OF this m(2) mid(3)[unfolded m(3)] less.prems(3)] obtain j where
        j: "m \<le> j" "j \<le> length w" "c' = ctxt pA xA w j"
           "ctxt pB xB w j \<in> set (at_most step (fewer limit) (ctxt pB xB w m))"
        by blast
      from im m have "length (snd (ctxt pB xB w m)) < length (snd (ctxt pB xB w i))" by simp
      from at_most_more[OF ne m(4) this j(4)]
      have "ctxt pB xB w j \<in> set (at_most step limit (ctxt pB xB w i))" .
      with j m show ?thesis by (intro exI[of _ j]) simp
    qed
  qed
  then show ?thesis unfolding simulates_def by blast
qed

lemma simulates_matches:
  assumes "compat pA xA pB xB w"
  shows "simulates pA xA pB xB w (matches r)"
proof (induction r)
  case Eps
  then show ?case by (simp add: simulates_skip)
next
  case (Lit c)
  then show ?case by (simp add: simulates_take_char)
next
  case (Class ranges)
  then show ?case by (simp add: simulates_take_char)
next
  case Boundary
  from simulates_boundary[OF assms] show ?case by simp
next
  case (Seq a b)
  from simulates_then[OF Seq.IH(1) Seq.IH(2) sound_matches] show ?case by simp
next
  case (Repeat r lo hi)
  from simulates_then[OF simulates_exactly[OF Repeat sound_matches]
      simulates_at_most[OF Repeat sound_matches] sound_at_most[OF sound_matches]]
  show ?case by simp
qed


lemma word_after_drop:
  "k < length w \<Longrightarrow> word_after (drop k w @ x) = is_word_char (w ! k)"
  by (simp add: Cons_nth_drop_Suc[symmetric])

lemma compat_ends:
  assumes b0: "at_boundary (pA, w @ xA) \<longrightarrow> at_boundary (pB, w @ xB)"
    and b1: "at_boundary (last_or pA w, xA) \<longrightarrow> at_boundary (last_or pB w, xB)"
  shows "compat pA xA pB xB w"
  unfolding compat_def
proof (intro allI impI)
  fix k assume k: "k \<le> length w" and a: "at_boundary (ctxt pA xA w k)"
  consider "k = 0" | "k = length w" | "0 < k" "k < length w" using k by linarith
  then show "at_boundary (ctxt pB xB w k)"
  proof cases
    case 1
    with a b0 show ?thesis by (simp add: ctxt_def)
  next
    case 2
    with a b1 show ?thesis by (simp add: ctxt_def)
  next
    case 3
    then obtain i where i: "k = Suc i" "i < length w" by (cases k) auto
    with 3 a show ?thesis
      by (simp add: ctxt_def at_boundary_def last_or_take_Suc word_after_drop)
  qed
qed

lemma transfer:
  assumes m: "c' \<in> set (matches r (pA, w @ xA))" and x: "snd c' = xA"
    and b0: "at_boundary (pA, w @ xA) \<longrightarrow> at_boundary (pB, w @ xB)"
    and b1: "at_boundary (last_or pA w, xA) \<longrightarrow> at_boundary (last_or pB w, xB)"
  shows "(last_or pB w, xB) \<in> set (matches r (pB, w @ xB))"
proof -
  have A0: "ctxt pA xA w 0 = (pA, w @ xA)" and B0: "ctxt pB xB w 0 = (pB, w @ xB)"
    by (simp_all add: ctxt_def)
  from simulatesD[OF simulates_matches[OF compat_ends[OF b0 b1]], of 0 c' r] m x
  obtain j where j: "j \<le> length w" "c' = ctxt pA xA w j"
      "ctxt pB xB w j \<in> set (matches r (ctxt pB xB w 0))"
    by (auto simp: A0)
  from j(2) x have "length w - j + length xA = length xA"
    by (metis length_ctxt)
  with j(1) have "j = length w" by simp
  with j(3) show ?thesis by (simp add: B0) (simp add: ctxt_def)
qed

subsection \<open>Patterns that the replacement token cannot feed\<close>

fun starts_clean :: "regex \<Rightarrow> bool" where
  "starts_clean Boundary = True"
| "starts_clean (Lit c) = (\<not> is_word_char c)"
| "starts_clean (Seq a b) = starts_clean a"
| "starts_clean _ = False"

fun ends_clean :: "regex \<Rightarrow> bool" where
  "ends_clean Boundary = True"
| "ends_clean (Lit c) = (\<not> is_word_char c)"
| "ends_clean (Seq a b) = ends_clean b"
| "ends_clean _ = False"

definition inside_word :: "cursor \<Rightarrow> bool" where
  "inside_word cur = (word_before (fst cur) \<and> word_after (snd cur))"

lemma starts_clean_matches:
  "starts_clean r \<Longrightarrow> c' \<in> set (matches r cur) \<Longrightarrow> \<not> inside_word cur"
proof (induction r arbitrary: cur c')
  case (Lit c)
  then show ?case
    by (cases cur; cases "snd cur") (auto simp: inside_word_def split: if_splits)
next
  case Boundary
  then show ?case by (auto simp: inside_word_def at_boundary_def split: if_splits)
next
  case (Seq a b)
  from Seq.prems obtain mid where "mid \<in> set (matches a cur)" "starts_clean a" by auto
  then show ?case by (rule Seq.IH(1)[rotated])
qed simp_all

lemma ends_clean_matches:
  "ends_clean r \<Longrightarrow> c' \<in> set (matches r cur) \<Longrightarrow> \<not> inside_word c'"
proof (induction r arbitrary: cur c')
  case (Lit c)
  then show ?case
    by (cases cur; cases "snd cur") (auto simp: inside_word_def split: if_splits)
next
  case Boundary
  then show ?case by (auto simp: inside_word_def at_boundary_def split: if_splits)
next
  case (Seq a b)
  from Seq.prems obtain mid where "c' \<in> set (matches b mid)" "ends_clean b" by auto
  then show ?case by (rule Seq.IH(2)[rotated])
qed simp_all

lemma no_match_at_avoided:
  assumes "avoids r b" and "1 \<le> minlen r"
  shows "matches r (p, b # x) = []"
proof (rule ccontr)
  assume "matches r (p, b # x) \<noteq> []"
  then obtain c' where "c' \<in> set (matches r (p, b # x))" by (cases "matches r (p, b # x)") auto
  from soundD[OF sound_matches this] assms obtain u where
    "consumed (p, b # x) u c'" "1 \<le> length u" "set u \<inter> {b. avoids r b} = {}"
    by auto
  then show False using assms(1) by (cases u) (auto simp: consumed_def)
qed

lemma no_empty_match:
  assumes "1 \<le> minlen r"
  shows "matches r (p, []) = []"
proof (rule ccontr)
  assume "matches r (p, []) \<noteq> []"
  then obtain c' where "c' \<in> set (matches r (p, []))" by (cases "matches r (p, [])") auto
  from sound_length[OF sound_matches this] assms show False by simp
qed


text \<open>\<^verbatim>\<open>RegExp.prototype.test\<close>: the pattern matches at some position of the string.\<close>

fun somewhere :: "(cursor \<Rightarrow> bool) \<Rightarrow> cursor \<Rightarrow> bool" where
  "somewhere P (p, []) = P (p, [])"
| "somewhere P (p, c # cs) = (P (p, c # cs) \<or> somewhere P (Some c, cs))"

definition occurs :: "regex \<Rightarrow> cursor \<Rightarrow> bool" where
  "occurs r = somewhere (\<lambda>cur. matches r cur \<noteq> [])"

definition regex_test :: "regex \<Rightarrow> string \<Rightarrow> bool" where
  "regex_test r s = occurs r (None, s)"

text \<open>
  A pattern is good when its matches are not empty, contain no bracket, begin
  and end at a word boundary or with a character that is not a word
  character, and when no match lies within \<^verbatim>\<open>REDACTED\<close> between its brackets.
\<close>

fun clear_run :: "regex \<Rightarrow> char option \<Rightarrow> string \<Rightarrow> string \<Rightarrow> bool" where
  "clear_run r p [] tail = True"
| "clear_run r p (c # cs) tail = (matches r (p, c # cs @ tail) = [] \<and> clear_run r (Some c) cs tail)"

definition token_free :: "regex \<Rightarrow> bool" where
  "token_free r = clear_run r (Some CHR ''['') ''REDACTED'' '']''"

definition good :: "regex \<Rightarrow> bool" where
  "good r = (1 \<le> minlen r \<and> avoids r CHR ''['' \<and> avoids r CHR '']'' \<and>
             starts_clean r \<and> ends_clean r \<and> token_free r)"

lemma somewhere_mono: "(\<And>c. P c \<Longrightarrow> Q c) \<Longrightarrow> somewhere P cur \<Longrightarrow> somewhere Q cur"
proof (induction "snd cur" arbitrary: cur)
  case Nil
  then show ?case by (cases cur) auto
next
  case (Cons c cs)
  then show ?case by (cases cur) auto
qed

lemma somewhere_consumed: "consumed cur u cur' \<Longrightarrow> somewhere P cur' \<Longrightarrow> somewhere P cur"
proof (induction u arbitrary: cur)
  case Nil
  then show ?case by (cases cur; cases cur') (simp add: consumed_def)
next
  case (Cons c u)
  then obtain p where cur: "cur = (p, c # u @ snd cur')" by (cases cur) (simp add: consumed_def)
  with Cons.prems have "consumed (Some c, u @ snd cur') u cur'" by (simp add: consumed_def)
  from Cons.IH[OF this Cons.prems(2)] cur show ?case by simp
qed

lemma somewhere_run:
  "somewhere P (p, cs @ x) \<Longrightarrow> (\<And>u v. cs = u @ v \<Longrightarrow> v \<noteq> [] \<Longrightarrow> \<not> P (last_or p u, v @ x)) \<Longrightarrow>
   somewhere P (last_or p cs, x)"
proof (induction cs arbitrary: p)
  case Nil
  then show ?case by simp
next
  case (Cons c cs)
  from Cons.prems(2)[of "[]" "c # cs"] have "\<not> P (p, (c # cs) @ x)" by simp
  with Cons.prems(1) have 1: "somewhere P (Some c, cs @ x)" by simp
  have "\<And>u v. cs = u @ v \<Longrightarrow> v \<noteq> [] \<Longrightarrow> \<not> P (last_or (Some c) u, v @ x)"
    using Cons.prems(2)[of "c # _"] by simp
  from Cons.IH[OF 1 this] show ?case by simp
qed

lemma split_before:
  "u @ v = a @ b # y \<Longrightarrow> b \<notin> set u \<Longrightarrow> \<exists>z. a = u @ z \<and> v = z @ b # y"
proof (induction u arbitrary: a)
  case Nil
  then show ?case by simp
next
  case (Cons c u)
  then obtain a' where a: "a = c # a'" by (cases a) auto
  with Cons.prems have "u @ v = a' @ b # y" "b \<notin> set u" by simp_all
  from Cons.IH[OF this] a show ?case by auto
qed

lemma clear_run_extend:
  assumes av: "avoids r b" and ml: "1 \<le> minlen r"
  shows "clear_run r p cs [b] \<Longrightarrow> clear_run r p cs (b # y)"
proof (induction cs arbitrary: p)
  case Nil
  then show ?case by simp
next
  case (Cons c cs)
  have "matches r (p, c # cs @ b # y) = []"
  proof (rule ccontr)
    assume "matches r (p, c # cs @ b # y) \<noteq> []"
    then obtain c' where c': "c' \<in> set (matches r (p, c # cs @ b # y))"
      by (cases "matches r (p, c # cs @ b # y)") auto
    from soundD[OF sound_matches c'] av obtain u where
      u: "consumed (p, c # cs @ b # y) u c'" "b \<notin> set u"
      by auto
    then have "u @ snd c' = (c # cs) @ b # y" by (simp add: consumed_def)
    from split_before[OF this u(2)] obtain z where z: "c # cs = u @ z" "snd c' = z @ b # y"
      by blast
    have "(last_or p u, z @ [b]) \<in> set (matches r (p, u @ (z @ [b])))"
    proof (rule transfer[where pA=p and xA="z @ b # y"])
      show "c' \<in> set (matches r (p, u @ z @ b # y))" using c' z(1)
        by (metis append_Cons append_assoc)
      show "snd c' = z @ b # y" by (rule z(2))
      show "at_boundary (p, u @ z @ b # y) \<longrightarrow> at_boundary (p, u @ z @ [b])"
        using z(1) by (cases u; cases z) (simp_all add: at_boundary_def)
      show "at_boundary (last_or p u, z @ b # y) \<longrightarrow> at_boundary (last_or p u, z @ [b])"
        by (cases z) (simp_all add: at_boundary_def)
    qed
    moreover from Cons.prems z(1) have "matches r (p, u @ (z @ [b])) = []"
      by (metis append_Cons append_assoc clear_run.simps(2))
    ultimately show False by simp
  qed
  with Cons show ?case by simp
qed

lemma clear_run_splits:
  "clear_run r p cs tail \<Longrightarrow> cs = u @ v \<Longrightarrow> v \<noteq> [] \<Longrightarrow> matches r (last_or p u, v @ tail) = []"
proof (induction u arbitrary: p cs)
  case Nil
  then show ?case by (cases v) simp_all
next
  case (Cons c u)
  then show ?case by auto
qed

lemma token_skip:
  assumes g: "good r" and o: "occurs r (pt, ''[REDACTED]'' @ y)"
  shows "occurs r (Some CHR '']'', y)"
proof -
  from g have ml: "1 \<le> minlen r" and ao: "avoids r CHR ''[''" and ac: "avoids r CHR '']''"
    and tf: "clear_run r (Some CHR ''['') ''REDACTED'' '']''"
    by (simp_all add: good_def token_free_def)
  have 0: "matches r (pt, CHR ''['' # ''REDACTED]'' @ y) = []"
    by (rule no_match_at_avoided[OF ao ml])
  with o have 1: "somewhere (\<lambda>cur. matches r cur \<noteq> []) (Some CHR ''['', ''REDACTED'' @ CHR '']'' # y)"
    by (simp add: occurs_def)
  have run: "clear_run r (Some CHR ''['') ''REDACTED'' (CHR '']'' # y)"
    by (rule clear_run_extend[OF ac ml tf])
  have "somewhere (\<lambda>cur. matches r cur \<noteq> []) (last_or (Some CHR ''['') ''REDACTED'', CHR '']'' # y)"
    by (rule somewhere_run[OF 1]) (simp add: clear_run_splits[OF run])
  moreover have "matches r (Some CHR ''D'', CHR '']'' # y) = []"
    by (rule no_match_at_avoided[OF ac ml])
  ultimately show ?thesis by (simp add: occurs_def)
qed


subsection \<open>The scan\<close>

lemma replace_from_end: "matches r (p, []) = [] \<Longrightarrow> replace_from r rep (p, []) = []"
  by (subst replace_from.simps) simp

lemma replace_from_copy:
  "matches r (p, c # cs) = [] \<Longrightarrow>
   replace_from r rep (p, c # cs) = c # replace_from r rep (Some c, cs)"
  by (subst replace_from.simps) simp

lemma replace_from_match:
  "matches r cur = m # ms \<Longrightarrow> length (snd m) < length (snd cur) \<Longrightarrow>
   replace_from r rep cur = rep @ replace_from r rep m"
  by (subst replace_from.simps) simp

lemma replace_from_hit:
  "matches r cur = m # ms \<Longrightarrow> \<exists>rest. replace_from r rep cur = rep @ rest"
  by (subst replace_from.simps) simp

lemma first_match_progress:
  assumes "1 \<le> minlen r" and "matches r cur = m # ms"
  shows "length (snd m) < length (snd cur)"
proof -
  from assms(2) have "m \<in> set (matches r cur)" by simp
  from sound_length[OF sound_matches this] assms(1) show ?thesis by simp
qed

lemma replace_from_noop: "\<not> occurs r (p, cs) \<Longrightarrow> replace_from r rep (p, cs) = cs"
proof (induction cs arbitrary: p)
  case Nil
  then show ?case by (simp add: occurs_def replace_from_end)
next
  case (Cons c cs)
  then show ?case by (simp add: occurs_def replace_from_copy)
qed

lemma starts_with_append: "starts_with (n @ x) n"
  by (induction n) simp_all

lemma starts_with_includes: "starts_with s n \<Longrightarrow> str_includes s n"
  by (cases s; cases n) simp_all

lemma includes_own_prefix: "str_includes (n @ x) n"
  by (rule starts_with_includes) (rule starts_with_append)

lemma replace_from_marks:
  "occurs r (p, cs) \<Longrightarrow> str_includes (replace_from r rep (p, cs)) rep"
proof (induction cs arbitrary: p)
  case Nil
  then obtain m ms where "matches r (p, []) = m # ms"
    by (cases "matches r (p, [])") (auto simp: occurs_def)
  from replace_from_hit[OF this, of rep] show ?case
    by (auto simp: includes_own_prefix)
next
  case (Cons c cs)
  show ?case
  proof (cases "matches r (p, c # cs)")
    case Nil
    with Cons.prems have "occurs r (Some c, cs)" by (simp add: occurs_def)
    from Cons.IH[OF this] Nil show ?thesis by (simp add: replace_from_copy)
  next
    case (Cons m ms)
    from replace_from_hit[OF this, of rep] show ?thesis
      by (auto simp: includes_own_prefix)
  qed
qed

lemma replace_all_keeps_mark:
  assumes "str_includes s rep \<or> regex_test r s"
  shows "str_includes (replace_all r rep s) rep"
proof (cases "regex_test r s")
  case True
  then show ?thesis by (simp add: replace_all_def regex_test_def replace_from_marks)
next
  case False
  with assms show ?thesis by (simp add: replace_all_def regex_test_def replace_from_noop)
qed

definition token :: string where
  "token = ''[REDACTED]''"

lemma copy_prefix:
  assumes g: "good q"
  shows "replace_from q token (ps, cs) = u @ xA \<Longrightarrow> CHR ''['' \<notin> set u \<Longrightarrow>
     \<exists>xB. cs = u @ xB \<and> (at_boundary (last_or ps u, xA) \<longrightarrow> at_boundary (last_or ps u, xB))"
proof (induction u arbitrary: ps cs)
  case Nil
  show ?case
  proof (cases "matches q (ps, cs)")
    case Nil
    with Nil.prems have "word_after xA = word_after cs"
      by (cases cs) (auto simp: replace_from_end replace_from_copy)
    then show ?thesis by (simp add: at_boundary_def)
  next
    case (Cons m ms)
    from replace_from_hit[OF this, of token] Nil.prems have "\<not> word_after xA"
      by (auto simp: token_def is_word_char_def in_class_def)
    moreover from g Cons have "\<not> inside_word (ps, cs)"
      using starts_clean_matches[of q m "(ps, cs)"] by (simp add: good_def)
    ultimately show ?thesis by (auto simp: at_boundary_def inside_word_def)
  qed
next
  case (Cons a u)
  show ?case
  proof (cases "matches q (ps, cs)")
    case Nil
    with Cons.prems obtain cs' where cs: "cs = a # cs'"
        "replace_from q token (Some a, cs') = u @ xA"
      by (cases cs) (auto simp: replace_from_end replace_from_copy)
    from Cons.IH[OF cs(2)] Cons.prems(2) cs(1) show ?thesis by auto
  next
    case (Cons m ms)
    from replace_from_hit[OF this, of token] Cons.prems show ?thesis
      by (auto simp: token_def)
  qed
qed

definition linked :: "char option \<Rightarrow> cursor \<Rightarrow> bool" where
  "linked pt cur = (pt = fst cur \<or> (pt = Some CHR '']'' \<and> \<not> inside_word cur))"

lemma not_word_bracket [simp]: "\<not> is_word_char CHR '']''" "\<not> is_word_char CHR ''[''"
  by (simp_all add: is_word_char_def in_class_def)

lemma traces_back:
  assumes gp: "good p" and gq: "good q"
  shows "linked pt (ps, cs) \<Longrightarrow> occurs p (pt, replace_from q token (ps, cs)) \<Longrightarrow>
     somewhere (\<lambda>c. matches p c \<noteq> [] \<and> matches q c = []) (ps, cs)"
proof (induction "length cs" arbitrary: pt ps cs rule: less_induct)
  case less
  let ?P = "\<lambda>c. matches p c \<noteq> [] \<and> matches q c = []"
  from gp have mlp: "1 \<le> minlen p" and aop: "avoids p CHR ''[''" by (simp_all add: good_def)
  from gq have mlq: "1 \<le> minlen q" by (simp add: good_def)
  show ?case
  proof (cases "matches q (ps, cs)")
    case Nil
    show ?thesis
    proof (cases cs)
      case Nil
      with \<open>matches q (ps, cs) = []\<close> less.prems(2) have "matches p (pt, []) \<noteq> []"
        by (simp add: replace_from_end occurs_def)
      with no_empty_match[OF mlp] show ?thesis by simp
    next
      case (Cons c cs')
      let ?out' = "replace_from q token (Some c, cs')"
      from Cons \<open>matches q (ps, cs) = []\<close> have out: "replace_from q token (ps, cs) = c # ?out'"
        by (simp add: replace_from_copy)
      with less.prems(2) consider "matches p (pt, c # ?out') \<noteq> []" | "occurs p (Some c, ?out')"
        by (auto simp: occurs_def)
      then show ?thesis
      proof cases
        case 1
        then obtain c1 where c1: "c1 \<in> set (matches p (pt, c # ?out'))"
          by (cases "matches p (pt, c # ?out')") auto
        from soundD[OF sound_matches c1] mlp aop obtain u where
          u: "consumed (pt, c # ?out') u c1" "1 \<le> length u" "CHR ''['' \<notin> set u"
          by (fastforce simp: disjoint_iff)
        then have split: "replace_from q token (ps, cs) = u @ snd c1" and f1: "fst c1 = last_or pt u"
          by (simp_all add: consumed_def out)
        from copy_prefix[OF gq split u(3)] obtain xB where
          xB: "cs = u @ xB" "at_boundary (last_or ps u, snd c1) \<longrightarrow> at_boundary (last_or ps u, xB)"
          by blast
        from u(2) obtain a u' where ua: "u = a # u'" by (cases u) auto
        have same: "last_or pt u = last_or ps u" by (simp add: ua)
        have "(last_or ps u, xB) \<in> set (matches p (ps, u @ xB))"
        proof (rule transfer[where pA=pt and xA="snd c1"])
          show "c1 \<in> set (matches p (pt, u @ snd c1))" using c1 split out by simp
          show "snd c1 = snd c1" by simp
          show "at_boundary (pt, u @ snd c1) \<longrightarrow> at_boundary (ps, u @ xB)"
            using less.prems(1) xB(1)
            by (auto simp: linked_def at_boundary_def inside_word_def ua)
          show "at_boundary (last_or pt u, snd c1) \<longrightarrow> at_boundary (last_or ps u, xB)"
            using xB(2) same by simp
        qed
        with xB(1) \<open>matches q (ps, cs) = []\<close> have "?P (ps, cs)" by auto
        then show ?thesis by (cases cs) simp_all
      next
        case 2
        have "linked (Some c) (Some c, cs')" by (simp add: linked_def)
        from less.hyps[OF _ this 2] Cons have "somewhere ?P (Some c, cs')" by simp
        with Cons show ?thesis by simp
      qed
    qed
  next
    case (Cons m ms)
    from first_match_progress[OF mlq Cons] have prog: "length (snd m) < length cs" by simp
    from replace_from_match[OF Cons, of token] prog
    have out: "replace_from q token (ps, cs) = ''[REDACTED]'' @ replace_from q token m"
      by (simp add: token_def)
    from token_skip[OF gp less.prems(2)[unfolded out]]
    have o: "occurs p (Some CHR '']'', replace_from q token (fst m, snd m))" by simp
    from gq Cons have "\<not> inside_word m"
      using ends_clean_matches[of q m "(ps, cs)"] by (simp add: good_def)
    then have "linked (Some CHR '']'') (fst m, snd m)" by (simp add: linked_def)
    from less.hyps[OF prog this o] have "somewhere ?P m" by simp
    moreover from Cons have "m \<in> set (matches q (ps, cs))" by simp
    from soundD[OF sound_matches this] obtain u where "consumed (ps, cs) u m" by blast
    ultimately show ?thesis by (rule somewhere_consumed[rotated])
  qed
qed


subsection \<open>The redactor\<close>

lemma somewhere_never: "\<not> somewhere (\<lambda>c. False) (p, cs)"
  by (induction cs arbitrary: p) simp_all

lemma linked_start: "linked None (None, s)"
  by (simp add: linked_def)

lemma replace_all_clears:
  assumes "good q"
  shows "\<not> regex_test q (replace_all q token s)"
proof
  assume "regex_test q (replace_all q token s)"
  then have "occurs q (None, replace_from q token (None, s))"
    by (simp add: regex_test_def replace_all_def)
  from traces_back[OF assms assms linked_start this]
  have "somewhere (\<lambda>c. False) (None, s)" by (rule somewhere_mono[rotated]) simp
  then show False by (simp add: somewhere_never)
qed

lemma replace_all_preserves:
  assumes "good p" and "good q" and "\<not> regex_test p s"
  shows "\<not> regex_test p (replace_all q token s)"
proof
  assume "regex_test p (replace_all q token s)"
  then have "occurs p (None, replace_from q token (None, s))"
    by (simp add: regex_test_def replace_all_def)
  from traces_back[OF assms(1,2) linked_start this]
  have "somewhere (\<lambda>c. matches p c \<noteq> []) (None, s)" by (rule somewhere_mono[rotated]) simp
  with assms(3) show False by (simp add: regex_test_def occurs_def)
qed

lemma redact_string_Cons:
  "redact_string (q # qs) rep s = redact_string qs rep (replace_all q rep s)"
  by (simp add: redact_string_def)

lemma redact_string_clears:
  "list_all good qs \<Longrightarrow> good p \<Longrightarrow> p \<in> set qs \<or> \<not> regex_test p s \<Longrightarrow>
   \<not> regex_test p (redact_string qs token s)"
proof (induction qs arbitrary: s)
  case Nil
  then show ?case by (simp add: redact_string_def)
next
  case (Cons q qs)
  from Cons.prems have gq: "good q" and gqs: "list_all good qs" by simp_all
  have "p \<in> set qs \<or> \<not> regex_test p (replace_all q token s)"
  proof (cases "p = q")
    case True
    with gq show ?thesis by (simp add: replace_all_clears)
  next
    case False
    with Cons.prems(3) show ?thesis
      using replace_all_preserves[OF Cons.prems(2) gq] by auto
  qed
  from Cons.IH[OF gqs Cons.prems(2) this] show ?case by (simp add: redact_string_Cons)
qed

lemma replace_all_noop: "\<not> regex_test q s \<Longrightarrow> replace_all q rep s = s"
  by (simp add: regex_test_def replace_all_def replace_from_noop)

lemma redact_string_noop:
  "\<forall>q\<in>set qs. \<not> regex_test q s \<Longrightarrow> redact_string qs rep s = s"
  by (induction qs) (simp_all add: redact_string_def replace_all_noop)

lemma redact_string_marks:
  "(\<exists>p\<in>set qs. regex_test p s) \<or> str_includes s rep \<Longrightarrow>
   str_includes (redact_string qs rep s) rep"
proof (induction qs arbitrary: s)
  case Nil
  then show ?case by (simp add: redact_string_def)
next
  case (Cons q qs)
  have "(\<exists>p\<in>set qs. regex_test p (replace_all q rep s)) \<or> str_includes (replace_all q rep s) rep"
  proof (cases "str_includes s rep \<or> regex_test q s")
    case True
    then show ?thesis by (simp add: replace_all_keeps_mark)
  next
    case False
    with Cons.prems show ?thesis by (auto simp: replace_all_noop)
  qed
  from Cons.IH[OF this] show ?case by (simp add: redact_string_Cons)
qed

lemma good_defaults: "list_all good (DEFAULT_SECRET_PATTERNS @ DEFAULT_PII_PATTERNS)"
  by code_simp

text \<open>
  Claim C8. The default redactor maps a string to a string in which none of
  its twelve patterns matches any more; when one of them matches the input
  somewhere, the output contains \<^verbatim>\<open>[REDACTED]\<close>; and redacting the output
  again returns it unchanged. Strings are sequences of 8-bit code units.
\<close>

theorem default_redaction:
  "(\<exists>t. createDefaultRedactor (JStr s) = JStr t \<and>
        (\<forall>p\<in>set (DEFAULT_SECRET_PATTERNS @ DEFAULT_PII_PATTERNS). \<not> regex_test p t) \<and>
        ((\<exists>p\<in>set (DEFAULT_SECRET_PATTERNS @ DEFAULT_PII_PATTERNS). regex_test p s) \<longrightarrow>
           str_includes t ''[REDACTED]'')) \<and>
   createDefaultRedactor (createDefaultRedactor (JStr s)) = createDefaultRedactor (JStr s)"
proof -
  let ?ps = "DEFAULT_SECRET_PATTERNS @ DEFAULT_PII_PATTERNS"
  let ?t = "redact_string ?ps token s"
  have t: "createDefaultRedactor (JStr s) = JStr ?t"
    by (simp add: createDefaultRedactor_def token_def)
  have clear: "\<forall>p\<in>set ?ps. \<not> regex_test p ?t"
  proof
    fix p assume p: "p \<in> set ?ps"
    with good_defaults have "good p" by (simp add: list_all_iff)
    from redact_string_clears[OF good_defaults this] p show "\<not> regex_test p ?t" by blast
  qed
  have mark: "(\<exists>p\<in>set ?ps. regex_test p s) \<longrightarrow> str_includes ?t ''[REDACTED]''"
    using redact_string_marks[of ?ps s token] by (simp add: token_def)
  have "createDefaultRedactor (JStr ?t) = JStr ?t"
    using redact_string_noop[OF clear, of token]
    by (simp add: createDefaultRedactor_def token_def)
  with t clear mark show ?thesis by simp
qed


theorem default_redaction_witness:
  "createDefaultRedactor (JStr ''mail bob@example.com'') = JStr ''mail [REDACTED]'' \<and>
   \<not> regex_test (last DEFAULT_PII_PATTERNS) ''mail [REDACTED]'' \<and>
   str_includes ''mail [REDACTED]'' ''[REDACTED]'' \<and>
   createDefaultRedactor (JStr ''mail [REDACTED]'') = JStr ''mail [REDACTED]''"
proof -
  have e: "createDefaultRedactor (JStr ''mail bob@example.com'') = JStr ''mail [REDACTED]''"
    by code_simp
  have m: "regex_test (last DEFAULT_PII_PATTERNS) ''mail bob@example.com''"
    by code_simp
  have l: "last DEFAULT_PII_PATTERNS \<in> set (DEFAULT_SECRET_PATTERNS @ DEFAULT_PII_PATTERNS)"
    by (simp add: DEFAULT_PII_PATTERNS_def)
  from default_redaction[of "''mail bob@example.com''"] e l m show ?thesis
    by auto
qed

end
